theory Spec2Isabelle
  imports Complex_Main "HOL-Library.Signed_Division"
begin

section \<open>Go values\<close>

text \<open>
  A Go string is a sequence of bytes: \<^typ>\<open>string\<close> is \<^typ>\<open>char list\<close> and every
  \<^typ>\<open>char\<close> is one byte, so text beyond ASCII appears as its UTF-8 bytes and
  \<open>length\<close> is Go's \<open>len\<close>.

  A value of type \<open>interface{}\<close> that reaches a finder is a UUID, a string, an integer or
  something else. A \<open>uuid.UUID\<close> is carried by the text its \<open>String\<close> method renders (the
  rendering itself belongs to the uuid package).
\<close>

datatype iface = UUIDv (uuid_String: string) | Stringv string | Intv int | Otherv nat

text \<open>
  Errors. \<open>sql.ErrNoRows\<close> is one fixed error value; \<open>errors.Wrap\<close> puts a message around
  an error and \<open>errors.Cause\<close> takes all the wrapping off again.
\<close>

datatype error = ErrNoRows | ErrOther string | Wrap error string

fun Cause :: "error \<Rightarrow> error" where
  "Cause (Wrap e msg) = Cause e"
| "Cause e = e"

text \<open>
  A call either returns or brings the goroutine down with a run-time panic. The two panics
  the finders can raise themselves are the integer division by zero and \<open>reflect\<close>'s
  \<open>Len\<close> of a value that has no length.
\<close>

datatype fault = DivideByZero | ReflectLen

datatype 'a exec = Panics fault | Returns 'a

subsection \<open>\<open>strconv.Atoi\<close>\<close>

text \<open>
  \<open>Atoi\<close> accepts an optional sign followed by at least one decimal digit and nothing
  else, and fails when the number does not fit Go's \<open>int\<close> (64 bits here). Only the
  failure matters to \<open>Find\<close>, so the error carries no detail: \<open>None\<close>.
\<close>

definition isDigit :: "char \<Rightarrow> bool" where
  "isDigit c = (48 \<le> (of_char c :: nat) \<and> (of_char c :: nat) \<le> 57)"

definition decimal :: "string \<Rightarrow> nat" where
  "decimal ds = foldl (\<lambda>n ch. n * 10 + ((of_char ch :: nat) - 48)) 0 ds"

definition intSize :: nat where
  "intSize = 64"

definition Atoi :: "string \<Rightarrow> int option" where
  "Atoi s =
     (case s of
        [] \<Rightarrow> None
      | c # cs \<Rightarrow>
          (let ds = (if c = CHR ''-'' \<or> c = CHR ''+'' then cs else s);
               n = (if c = CHR ''-'' then - int (decimal ds) else int (decimal ds))
           in if ds = [] \<or> \<not> list_all isDigit ds then None
              else if - (2 ^ (intSize - 1)) \<le> n \<and> n < 2 ^ (intSize - 1) then Some n
              else None))"

subsection \<open>\<open>strings.TrimSpace\<close>\<close>

text \<open>
  \<open>TrimSpace\<close> removes leading and trailing white space as Unicode defines it
  (\<open>unicode.IsSpace\<close>). On the bytes of a string the white-space runes are exactly the
  following UTF-8 encodings; a byte sequence that is not valid UTF-8 decodes to
  \<open>U+FFFD\<close>, which is no space.
\<close>

definition spaceRunes :: "string list" where
  "spaceRunes =
     [[CHR 0x09], [CHR 0x0A], [CHR 0x0B], [CHR 0x0C], [CHR 0x0D], [CHR 0x20],
      [CHR 0xC2, CHR 0x85], [CHR 0xC2, CHR 0xA0],
      [CHR 0xE1, CHR 0x9A, CHR 0x80],
      [CHR 0xE2, CHR 0x80, CHR 0x80], [CHR 0xE2, CHR 0x80, CHR 0x81],
      [CHR 0xE2, CHR 0x80, CHR 0x82], [CHR 0xE2, CHR 0x80, CHR 0x83],
      [CHR 0xE2, CHR 0x80, CHR 0x84], [CHR 0xE2, CHR 0x80, CHR 0x85],
      [CHR 0xE2, CHR 0x80, CHR 0x86], [CHR 0xE2, CHR 0x80, CHR 0x87],
      [CHR 0xE2, CHR 0x80, CHR 0x88], [CHR 0xE2, CHR 0x80, CHR 0x89],
      [CHR 0xE2, CHR 0x80, CHR 0x8A],
      [CHR 0xE2, CHR 0x80, CHR 0xA8], [CHR 0xE2, CHR 0x80, CHR 0xA9],
      [CHR 0xE2, CHR 0x80, CHR 0xAF],
      [CHR 0xE2, CHR 0x81, CHR 0x9F],
      [CHR 0xE3, CHR 0x80, CHR 0x80]]"

fun stripPrefix :: "string \<Rightarrow> string \<Rightarrow> string option" where
  "stripPrefix [] s = Some s"
| "stripPrefix (p # ps) [] = None"
| "stripPrefix (p # ps) (c # cs) = (if p = c then stripPrefix ps cs else None)"

fun firstSpace :: "string list \<Rightarrow> string \<Rightarrow> string option" where
  "firstSpace [] s = None"
| "firstSpace (e # es) s =
     (case stripPrefix e s of Some r \<Rightarrow> Some r | None \<Rightarrow> firstSpace es s)"

text \<open>
  One step of trimming drops one white-space rune when the string starts with one. A rune
  has at least one byte, so as many steps as the string has bytes trim all of them.
\<close>

definition trimStep :: "string list \<Rightarrow> string \<Rightarrow> string" where
  "trimStep runes s = (case firstSpace runes s of Some r \<Rightarrow> r | None \<Rightarrow> s)"

definition TrimLeft :: "string \<Rightarrow> string" where
  "TrimLeft s = (trimStep spaceRunes ^^ length s) s"

definition TrimRight :: "string \<Rightarrow> string" where
  "TrimRight s = rev ((trimStep (map rev spaceRunes) ^^ length s) (rev s))"

definition TrimSpace :: "string \<Rightarrow> string" where
  "TrimSpace s = TrimRight (TrimLeft s)"

subsection \<open>Regular expressions\<close>

text \<open>
  The syntax tree of a Go regular expression, as far as the two patterns of the finders
  need it (the constructors bear the names of \<open>regexp/syntax\<close>), matched byte by byte.
\<close>

datatype regex =
    OpNoMatch
  | OpEmptyMatch
  | OpCharClass "char list"
  | OpAlternate regex regex
  | OpConcat regex regex
  | OpStar regex
  | OpPlus regex

fun nullable :: "regex \<Rightarrow> bool" where
  "nullable OpNoMatch = False"
| "nullable OpEmptyMatch = True"
| "nullable (OpCharClass cs) = False"
| "nullable (OpAlternate r1 r2) = (nullable r1 \<or> nullable r2)"
| "nullable (OpConcat r1 r2) = (nullable r1 \<and> nullable r2)"
| "nullable (OpStar r) = True"
| "nullable (OpPlus r) = nullable r"

text \<open>What is left of an expression once it has read the byte \<open>c\<close>.\<close>

fun deriv :: "char \<Rightarrow> regex \<Rightarrow> regex" where
  "deriv c OpNoMatch = OpNoMatch"
| "deriv c OpEmptyMatch = OpNoMatch"
| "deriv c (OpCharClass cs) = (if c \<in> set cs then OpEmptyMatch else OpNoMatch)"
| "deriv c (OpAlternate r1 r2) = OpAlternate (deriv c r1) (deriv c r2)"
| "deriv c (OpConcat r1 r2) =
     (if nullable r1 then OpAlternate (OpConcat (deriv c r1) r2) (deriv c r2)
      else OpConcat (deriv c r1) r2)"
| "deriv c (OpStar r) = OpConcat (deriv c r) (OpStar r)"
| "deriv c (OpPlus r) = OpConcat (deriv c r) (OpStar r)"

fun derivs :: "regex \<Rightarrow> string \<Rightarrow> regex" where
  "derivs r [] = r"
| "derivs r (c # cs) = derivs (deriv c r) cs"

definition fullMatch :: "regex \<Rightarrow> string \<Rightarrow> bool" where
  "fullMatch r s = nullable (derivs r s)"

text \<open>
  Both patterns have the form \<open>(body)$\<close>, compiled without the multi-line flag, so
  \<open>$\<close> holds at the end of the text only: a match is a suffix of the text that the body
  matches as a whole, and Go reports the leftmost one. \<open>leftmost\<close> tries the start positions
  from the left.
\<close>

fun leftmost :: "regex \<Rightarrow> string \<Rightarrow> string option" where
  "leftmost r [] = (if fullMatch r [] then Some [] else None)"
| "leftmost r (c # cs) = (if fullMatch r (c # cs) then Some (c # cs) else leftmost r cs)"

definition MatchString :: "regex \<Rightarrow> string \<Rightarrow> bool" where
  "MatchString r s = (leftmost r s \<noteq> None)"

definition FindString :: "regex \<Rightarrow> string \<Rightarrow> string" where
  "FindString r s = (case leftmost r s of Some m \<Rightarrow> m | None \<Rightarrow> [])"

text \<open>
  Under the flag \<open>(?i)\<close> a letter of the pattern matches every rune of its case-folding
  orbit (\<open>unicode.SimpleFold\<close>): the letter in both cases and, for \<open>s\<close>, also
  \<open>U+017F\<close> (bytes \<open>C5 BF\<close>), for \<open>k\<close> also \<open>U+212A\<close> (bytes \<open>E2 84 AA\<close>).
\<close>

definition literal :: "string \<Rightarrow> regex" where
  "literal s = foldr (\<lambda>c r. OpConcat (OpCharClass [c]) r) s OpEmptyMatch"

definition foldCase :: "char \<Rightarrow> regex" where
  "foldCase c =
     (let n = (of_char c :: nat);
          lower = (if 65 \<le> n \<and> n \<le> 90 then char_of (n + 32) else c);
          upper = (if 97 \<le> n \<and> n \<le> 122 then char_of (n - 32) else c)
      in if lower = upper then OpCharClass [c]
         else if lower = CHR ''s'' then
           OpAlternate (OpCharClass [lower, upper]) (literal [CHR 0xC5, CHR 0xBF])
         else if lower = CHR ''k'' then
           OpAlternate (OpCharClass [lower, upper]) (literal [CHR 0xE2, CHR 0x84, CHR 0xAA])
         else OpCharClass [lower, upper])"

definition literalFold :: "string \<Rightarrow> regex" where
  "literalFold s = foldr (\<lambda>c r. OpConcat (foldCase c) r) s OpEmptyMatch"

definition digits :: regex where
  "digits = OpPlus (OpCharClass ''0123456789'')"

text \<open>\<open>(?i)(limit [0-9]+ offset [0-9]+)$\<close>\<close>

definition rLimitOffset :: regex where
  "rLimitOffset =
     OpConcat (literalFold ''limit '')
       (OpConcat digits (OpConcat (literalFold '' offset '') digits))"

text \<open>\<open>(?i)(limit [0-9]+)$\<close>\<close>

definition rLimit :: regex where
  "rLimit = OpConcat (literalFold ''limit '') digits"

text \<open>
  \<open>Exists\<close> and \<open>CountByField\<close> hold the same lines, which cut the clause that
  \<open>rLimitOffset\<close> or else \<open>rLimit\<close> finds off the end of the SQL text.
\<close>

definition stripLimit :: "string \<Rightarrow> string" where
  "stripLimit query =
     (if MatchString rLimitOffset query then
        (let foundLimit = FindString rLimitOffset query
         in take (length query - length foundLimit) query)
      else if MatchString rLimit query then
        (let foundLimit = FindString rLimit query
         in take (length query - length foundLimit) query)
      else query)"

text \<open>The strings an expression denotes.\<close>

definition conc :: "string set \<Rightarrow> string set \<Rightarrow> string set" where
  "conc A B = {x @ y | x y. x \<in> A \<and> y \<in> B}"

inductive_set star :: "string set \<Rightarrow> string set" for A :: "string set" where
  star_nil: "[] \<in> star A"
| star_app: "x \<in> A \<Longrightarrow> y \<in> star A \<Longrightarrow> x @ y \<in> star A"

fun lang :: "regex \<Rightarrow> string set" where
  "lang OpNoMatch = {}"
| "lang OpEmptyMatch = {[]}"
| "lang (OpCharClass cs) = {[c] | c. c \<in> set cs}"
| "lang (OpAlternate r1 r2) = lang r1 \<union> lang r2"
| "lang (OpConcat r1 r2) = conc (lang r1) (lang r2)"
| "lang (OpStar r) = star (lang r)"
| "lang (OpPlus r) = conc (lang r) (star (lang r))"

text \<open>
  The bytes that can occur in a string of an expression, and the strings that start with
  \<open>l\<close> or \<open>L\<close> and hold neither of them further on, as every match of the two patterns
  does.
\<close>

fun chars :: "regex \<Rightarrow> char set" where
  "chars OpNoMatch = {}"
| "chars OpEmptyMatch = {}"
| "chars (OpCharClass cs) = set cs"
| "chars (OpAlternate r1 r2) = chars r1 \<union> chars r2"
| "chars (OpConcat r1 r2) = chars r1 \<union> chars r2"
| "chars (OpStar r) = chars r"
| "chars (OpPlus r) = chars r"

definition headed :: "string \<Rightarrow> bool" where
  "headed x = (\<exists>c y. x = c # y \<and> (c = CHR ''l'' \<or> c = CHR ''L'') \<and>
                 CHR ''l'' \<notin> set y \<and> CHR ''L'' \<notin> set y)"

section \<open>The data model\<close>

text \<open>A clause is an SQL fragment with its bound arguments.\<close>

type_synonym clause = "string \<times> iface list"

record Paginator =
  PerPage :: int
  TotalEntriesSize :: int
  CurrentEntriesSize :: int
  TotalPages :: int

text \<open>
  Of a \<open>Connection\<close> the finders read and write the eager flag and the eager fields; its
  store and its dialect are external and appear below as the functions of \<open>env\<close>.
\<close>

record Connection =
  conn_eager :: bool
  conn_eagerFields :: "string list"

text \<open>
  A \<open>Query\<close>. Its \<open>Paginator\<close> and its \<open>Connection\<close> are pointers: addresses into the
  memory below.
\<close>

record Query =
  RawSQL :: clause
  whereClauses :: "clause list"
  orderClauses :: "clause list"
  limitResults :: int
  addColumns :: "string list"
  Paginator :: "nat option"
  eager :: bool
  eagerFields :: "string list"
  Connection :: nat

text \<open>
  The value a finder is asked to fill, as reflection sees it once it is filled: a slice (or
  array) of elements, or a struct. A struct carries what \<open>associations.ForStruct\<close> reports
  for it, an error or its associations. Of an association the resolver asks whether it is
  skipped, its kind, its constraint, its \<open>OrderBy\<close> when it is sortable, the value to
  fill and its inner associations; an inner association names a field of the owner, whose
  value is \<open>FieldByName\<close>.
\<close>

datatype kind = Slice | Array | Struct | OtherKind

datatype model =
    SliceOf "model list"
  | StructOf "error option" "assoc list"
and assoc =
    Association (Skipped: bool) (Kind: kind) (Constraint: clause) (OrderBy: "string option")
      (Interface: model) (InnerAssociations: "inner list")
and inner =
    InnerAssociation (Name: string) (Fields: string) (FieldByName: model)

text \<open>What the finders ask of the world outside, in the order they ask it.\<close>

datatype event =
    SelectOne_call Query model
  | SelectMany_call Query model
  | afterFind_call model
  | ForStruct_call model "string list"
  | Get_call string "iface list"

text \<open>
  The memory: the \<open>Query\<close>, \<open>Connection\<close> and \<open>Paginator\<close> objects by address, the next
  free \<open>Query\<close> address, and the calls made so far.
\<close>

record memory =
  queries :: "nat \<Rightarrow> Query"
  next_query :: nat
  conns :: "nat \<Rightarrow> Connection"
  paginators :: "nat \<Rightarrow> Paginator"
  trace :: "event list"

text \<open>
  The external collaborators: the dialect's two SELECTs, the model's \<open>afterFind\<close> hook and
  its \<open>whereID\<close>, the rendering of a query to SQL, and \<open>Store.Get\<close> into a \<open>bool\<close> and
  into a \<open>rowCount\<close> (the value it leaves in the destination, and its error).
\<close>

record env =
  Dialect_SelectOne :: "Query \<Rightarrow> model \<Rightarrow> error option"
  Dialect_SelectMany :: "Query \<Rightarrow> model \<Rightarrow> error option"
  Model_afterFind :: "model \<Rightarrow> error option"
  Model_whereID :: "model \<Rightarrow> string"
  Query_ToSQL :: "Query \<Rightarrow> model \<Rightarrow> string \<times> iface list"
  Store_Get_bool :: "string \<Rightarrow> iface list \<Rightarrow> bool \<times> error option"
  Store_Get_rowCount :: "string \<Rightarrow> iface list \<Rightarrow> int \<times> error option"

definition update_query :: "nat \<Rightarrow> (Query \<Rightarrow> Query) \<Rightarrow> memory \<Rightarrow> memory" where
  "update_query qa f s = s\<lparr>queries := (queries s)(qa := f (queries s qa))\<rparr>"

definition record_call :: "event \<Rightarrow> memory \<Rightarrow> memory" where
  "record_call e s = s\<lparr>trace := trace s @ [e]\<rparr>"

section \<open>The query builder\<close>

text \<open>
  Modelled from the spec: \<open>Q\<close>, the constructor of a \<open>Query\<close>, is not among the sources.
  A fresh query against a connection has no clauses, no limit and no paginator, and takes
  over the connection's eager flag and eager fields (which is why the resolver switches the
  connection's flag off before it builds its sub-queries).
\<close>

definition Q :: "nat \<Rightarrow> memory \<Rightarrow> nat \<times> memory" where
  "Q c s =
     (next_query s,
      s\<lparr>queries := (queries s)(next_query s :=
           \<lparr>RawSQL = ([], []), whereClauses = [], orderClauses = [], limitResults = 0,
            addColumns = [], Paginator = None, eager = conn_eager (conns s c),
            eagerFields = conn_eagerFields (conns s c), Connection = c\<rparr>),
        next_query := Suc (next_query s)\<rparr>)"

text \<open>
  Modelled from the spec: \<open>Query.Where\<close>, of the clause accumulator, is not among the
  sources. It accumulates: the call adds its condition, with the bound arguments, after the
  WHERE clauses the query holds.
\<close>

definition Where :: "string \<Rightarrow> iface list \<Rightarrow> nat \<Rightarrow> memory \<Rightarrow> memory" where
  "Where stmt args qa = update_query qa (\<lambda>q. q\<lparr>whereClauses := whereClauses q @ [(stmt, args)]\<rparr>)"

text \<open>
  Modelled from the spec: \<open>Query.Order\<close>, of the clause accumulator, is not among the
  sources. It accumulates as \<open>Where\<close> does (and as \<open>Select\<close> does with columns): the
  call adds its ORDER clause after those the query holds. The order clauses are a list,
  which \<open>Exists\<close> and \<open>CountByField\<close> empty with \<open>clauses{}\<close>.
\<close>

definition Order :: "string \<Rightarrow> nat \<Rightarrow> memory \<Rightarrow> memory" where
  "Order stmt qa = update_query qa (\<lambda>q. q\<lparr>orderClauses := orderClauses q @ [(stmt, [])]\<rparr>)"

text \<open>
  Modelled from the spec: \<open>Query.Limit\<close>, of the clause accumulator, is not among the
  sources. It sets the limit of the query.
\<close>

definition Limit :: "int \<Rightarrow> nat \<Rightarrow> memory \<Rightarrow> memory" where
  "Limit limit qa = update_query qa (\<lambda>q. q\<lparr>limitResults := limit\<rparr>)"

text \<open>
  Modelled from the spec: \<open>Query.RawQuery\<close> is not among the sources. It sets the raw SQL
  of the query, the statement with its arguments.
\<close>

definition RawQuery :: "string \<Rightarrow> iface list \<Rightarrow> nat \<Rightarrow> memory \<Rightarrow> memory" where
  "RawQuery stmt args qa = update_query qa (\<lambda>q. q\<lparr>RawSQL := (stmt, args)\<rparr>)"

text \<open>
  Modelled from the spec: \<open>Clone\<close> is not among the sources. It fills the target query
  with the clauses, limit, columns and paginator of the receiver, so that the derived query
  can be changed without changing the original. The receiver is read, never written.
\<close>

definition Clone :: "Query \<Rightarrow> nat \<Rightarrow> memory \<Rightarrow> memory" where
  "Clone q targetQ =
     update_query targetQ (\<lambda>t. t\<lparr>RawSQL := RawSQL q, whereClauses := whereClauses q,
       orderClauses := orderClauses q, limitResults := limitResults q,
       addColumns := addColumns q, Paginator := Paginator q\<rparr>)"

text \<open>
  Modelled from the spec: \<open>disableEager\<close> is not among the sources. It resets the eager
  flag of the query and of its connection.
\<close>

definition disableEager :: "nat \<Rightarrow> memory \<Rightarrow> memory" where
  "disableEager qa s =
     (let c = Connection (queries s qa)
      in update_query qa (\<lambda>q. q\<lparr>eager := False\<rparr>)
           (s\<lparr>conns := (conns s)(c := (conns s c)\<lparr>conn_eager := False\<rparr>)\<rparr>))"

text \<open>\<open>Select\<close> keeps every field that is not blank, as it was passed.\<close>

definition Select :: "string list \<Rightarrow> nat \<Rightarrow> memory \<Rightarrow> memory" where
  "Select fieldNames qa s =
     foldl (\<lambda>s f. if TrimSpace f \<noteq> [] then
                    update_query qa (\<lambda>q. q\<lparr>addColumns := addColumns q @ [f]\<rparr>) s
                  else s) s fieldNames"

section \<open>The finders\<close>

text \<open>
  A method with a pointer receiver takes the address of its \<open>Query\<close> and the memory and
  returns the memory it leaves behind; a method with a value receiver (\<open>Count\<close>,
  \<open>CountByField\<close>) takes the \<open>Query\<close> itself, which is Go's copy of it.
  \<open>Connection.timeFunc\<close> (instrumentation, not among the sources) runs the function it
  is given and returns its error; the tracing spans leave no mark either. Go's \<open>int\<close> is
  \<^typ>\<open>int\<close> here, with Go's division and remainder, which round towards zero
  (\<open>sdiv\<close>, \<open>smod\<close>).
\<close>

subsection \<open>\<open>Exists\<close>, \<open>Count\<close> and \<open>CountByField\<close>\<close>

definition Exists :: "env \<Rightarrow> nat \<Rightarrow> model \<Rightarrow> memory \<Rightarrow> (bool \<times> error option) \<times> memory" where
  "Exists env qa m s =
     (case Q (Connection (queries s qa)) s of
        (tmpQuery, s1) \<Rightarrow>
          (let s2 = Clone (queries s1 qa) tmpQuery s1;
               s3 = update_query tmpQuery (\<lambda>t. t\<lparr>Paginator := None\<rparr>) s2;
               s4 = update_query tmpQuery (\<lambda>t. t\<lparr>orderClauses := []\<rparr>) s3;
               s5 = update_query tmpQuery (\<lambda>t. t\<lparr>limitResults := 0\<rparr>) s4
           in case Query_ToSQL env (queries s5 tmpQuery) m of
                (query, args) \<Rightarrow>
                  (let existsQuery = ''SELECT EXISTS ('' @ stripLimit query @ '')''
                   in (Store_Get_bool env existsQuery args,
                       record_call (Get_call existsQuery args) s5))))"

definition CountByField ::
  "env \<Rightarrow> Query \<Rightarrow> model \<Rightarrow> string \<Rightarrow> memory \<Rightarrow> (int \<times> error option) \<times> memory" where
  "CountByField env q m field s =
     (case Q (Connection q) s of
        (tmpQuery, s1) \<Rightarrow>
          (let s2 = Clone q tmpQuery s1;
               s3 = update_query tmpQuery (\<lambda>t. t\<lparr>Paginator := None\<rparr>) s2;
               s4 = update_query tmpQuery (\<lambda>t. t\<lparr>orderClauses := []\<rparr>) s3;
               s5 = update_query tmpQuery (\<lambda>t. t\<lparr>limitResults := 0\<rparr>) s4
           in case Query_ToSQL env (queries s5 tmpQuery) m of
                (query, args) \<Rightarrow>
                  (let countQuery = ''SELECT COUNT('' @ field @ '') AS row_count FROM (''
                                      @ stripLimit query @ '') a''
                   in (Store_Get_rowCount env countQuery args,
                       record_call (Get_call countQuery args) s5))))"

definition Count :: "env \<Rightarrow> Query \<Rightarrow> model \<Rightarrow> memory \<Rightarrow> (int \<times> error option) \<times> memory" where
  "Count env q m s = CountByField env q m ''*'' s"

subsection \<open>\<open>paginateModel\<close>\<close>

definition update_paginator :: "nat \<Rightarrow> (Paginator \<Rightarrow> Paginator) \<Rightarrow> memory \<Rightarrow> memory" where
  "update_paginator pa f s = s\<lparr>paginators := (paginators s)(pa := f (paginators s pa))\<rparr>"

definition paginateModel :: "env \<Rightarrow> nat \<Rightarrow> model \<Rightarrow> memory \<Rightarrow> error option exec \<times> memory" where
  "paginateModel env qa models s =
     (case Paginator (queries s qa) of
        None \<Rightarrow> (Returns None, s)
      | Some pa \<Rightarrow>
          (case Count env (queries s qa) models s of
             ((ct, Some err), s1) \<Rightarrow> (Returns (Some err), s1)
           | ((ct, None), s1) \<Rightarrow>
               (let s2 = update_paginator pa (\<lambda>P. P\<lparr>TotalEntriesSize := ct\<rparr>) s1
                in case models of
                     StructOf disc assos \<Rightarrow> (Panics ReflectLen, s2)
                   | SliceOf st \<Rightarrow>
                       (let s3 = update_paginator pa
                                   (\<lambda>P. P\<lparr>CurrentEntriesSize := int (length st)\<rparr>) s2
                        in if PerPage (paginators s3 pa) = 0 then (Panics DivideByZero, s3)
                           else
                             (let s4 = update_paginator pa
                                         (\<lambda>P. P\<lparr>TotalPages := TotalEntriesSize P sdiv PerPage P\<rparr>) s3
                              in if TotalEntriesSize (paginators s4 pa)
                                      smod PerPage (paginators s4 pa) > 0
                                 then (Returns None,
                                       update_paginator pa
                                         (\<lambda>P. P\<lparr>TotalPages := TotalPages P + 1\<rparr>) s4)
                                 else (Returns None, s4))))))"

subsection \<open>\<open>First\<close>, \<open>Last\<close>, \<open>All\<close> and the association resolver\<close>

text \<open>The functions that \<open>First\<close>, \<open>Last\<close> and \<open>All\<close> hand to \<open>timeFunc\<close>.\<close>

definition First_select :: "env \<Rightarrow> nat \<Rightarrow> model \<Rightarrow> memory \<Rightarrow> error option \<times> memory" where
  "First_select env qa m s =
     (let s1 = Limit 1 qa s;
          s2 = record_call (SelectOne_call (queries s1 qa) m) s1
      in case Dialect_SelectOne env (queries s1 qa) m of
           Some err \<Rightarrow> (Some err, s2)
         | None \<Rightarrow> (Model_afterFind env m, record_call (afterFind_call m) s2))"

definition Last_select :: "env \<Rightarrow> nat \<Rightarrow> model \<Rightarrow> memory \<Rightarrow> error option \<times> memory" where
  "Last_select env qa m s =
     (let s0 = Limit 1 qa s;
          s1 = Order ''created_at DESC, id DESC'' qa s0;
          s2 = record_call (SelectOne_call (queries s1 qa) m) s1
      in case Dialect_SelectOne env (queries s1 qa) m of
           Some err \<Rightarrow> (Some err, s2)
         | None \<Rightarrow> (Model_afterFind env m, record_call (afterFind_call m) s2))"

definition All_select :: "env \<Rightarrow> nat \<Rightarrow> model \<Rightarrow> memory \<Rightarrow> error option exec \<times> memory" where
  "All_select env qa models s =
     (let s1 = record_call (SelectMany_call (queries s qa) models) s
      in case Dialect_SelectMany env (queries s qa) models of
           Some err \<Rightarrow> (Returns (Some err), s1)
         | None \<Rightarrow>
             (case paginateModel env qa models s1 of
                (Panics f, s2) \<Rightarrow> (Panics f, s2)
              | (Returns (Some err), s2) \<Rightarrow> (Returns (Some err), s2)
              | (Returns None, s2) \<Rightarrow>
                  (Returns (Model_afterFind env models), record_call (afterFind_call models) s2)))"

text \<open>\<open>err != nil && errors.Cause(err) != sql.ErrNoRows\<close>\<close>

definition fatal :: "error option \<Rightarrow> bool" where
  "fatal err = (case err of None \<Rightarrow> False | Some e \<Rightarrow> Cause e \<noteq> ErrNoRows)"

text \<open>
  The query the resolver builds for one association: a fresh query on the connection of
  the resolver's query, with the association's constraint as WHERE clause and, when the
  association is sortable and its \<open>OrderBy\<close> is not empty, its ORDER clause; rendered to
  SQL for the value to fill and set again as raw query.
\<close>

definition associationQuery :: "env \<Rightarrow> nat \<Rightarrow> assoc \<Rightarrow> memory \<Rightarrow> nat \<times> memory" where
  "associationQuery env qa association s =
     (case Q (Connection (queries s qa)) s of
        (query, s1) \<Rightarrow>
          (let s2 = Where (fst (Constraint association)) (snd (Constraint association)) query s1;
               s3 = (case OrderBy association of
                       None \<Rightarrow> s2
                     | Some orderClause \<Rightarrow>
                         if orderClause \<noteq> [] then Order orderClause query s2 else s2);
               sql = Query_ToSQL env (queries s3 query) (Interface association);
               s4 = RawQuery (fst sql) (snd sql) query s3
           in (query, s4)))"

text \<open>
  The query that resolves one inner association: a fresh query on the connection of the
  association's query, its eager fields narrowed to the fields of the inner association.
\<close>

definition innerQueryFor :: "nat \<Rightarrow> inner \<Rightarrow> memory \<Rightarrow> nat \<times> memory" where
  "innerQueryFor query i s =
     (case Q (Connection (queries s query)) s of
        (innerQuery, s1) \<Rightarrow>
          (innerQuery, update_query innerQuery (\<lambda>q. q\<lparr>eagerFields := [Fields i]\<rparr>) s1))"

text \<open>
  \<open>eagerAssociations\<close> with its three loops: \<open>eachElement\<close> over the elements of a slice,
  \<open>eachAssociation\<close> over the associations of a struct (it carries the variable \<open>err\<close>
  of the function, which an association of neither kind leaves as it was) and
  \<open>eachInner\<close> over the inner associations of one association. \<open>First\<close> and \<open>All\<close>
  call the resolver and the resolver calls them, so they are defined together.
\<close>

function (sequential) eagerAssociations :: "env \<Rightarrow> nat \<Rightarrow> model \<Rightarrow> memory \<Rightarrow> error option exec \<times> memory"
and eachElement :: "env \<Rightarrow> nat \<Rightarrow> model list \<Rightarrow> memory \<Rightarrow> error option exec \<times> memory"
and eachAssociation ::
  "env \<Rightarrow> nat \<Rightarrow> assoc list \<Rightarrow> error option \<Rightarrow> memory \<Rightarrow> error option exec \<times> memory"
and eachInner :: "env \<Rightarrow> nat \<Rightarrow> inner list \<Rightarrow> memory \<Rightarrow> error option exec \<times> memory"
and First :: "env \<Rightarrow> nat \<Rightarrow> model \<Rightarrow> memory \<Rightarrow> error option exec \<times> memory"
and All :: "env \<Rightarrow> nat \<Rightarrow> model \<Rightarrow> memory \<Rightarrow> error option exec \<times> memory"
where
  "eagerAssociations env qa (SliceOf v) s = eachElement env qa v s"
| "eagerAssociations env qa (StructOf disc assos) s =
     (let s0 = record_call (ForStruct_call (StructOf disc assos) (eagerFields (queries s qa))) s
      in case disc of
           Some err \<Rightarrow> (Returns (Some err), s0)
         | None \<Rightarrow>
             (let s1 = update_query qa (\<lambda>q. q\<lparr>eager := False\<rparr>) s0;
                  c = Connection (queries s1 qa);
                  s2 = s1\<lparr>conns := (conns s1)(c := (conns s1 c)\<lparr>conn_eager := False\<rparr>)\<rparr>
              in eachAssociation env qa assos None s2))"
| "eachElement env qa [] s = (Returns None, s)"
| "eachElement env qa (m # ms) s =
     (case eagerAssociations env qa m s of
        (Returns None, s1) \<Rightarrow> eachElement env qa ms s1
      | (r, s1) \<Rightarrow> (r, s1))"
| "eachAssociation env qa [] err s = (Returns None, s)"
| "eachAssociation env qa (association # rest) err s =
     (if Skipped association then eachAssociation env qa rest err s
      else
        (case associationQuery env qa association s of
           (query, s4) \<Rightarrow>
             (case (if Kind association = Slice \<or> Kind association = Array
                    then All env query (Interface association) s4
                    else (Returns err, s4)) of
                (Panics f, s5) \<Rightarrow> (Panics f, s5)
              | (Returns err1, s5) \<Rightarrow>
                  (case (if Kind association = Struct
                         then First env query (Interface association) s5
                         else (Returns err1, s5)) of
                     (Panics f, s6) \<Rightarrow> (Panics f, s6)
                   | (Returns err2, s6) \<Rightarrow>
                       if fatal err2 then (Returns err2, s6)
                       else
                         (case eachInner env query (InnerAssociations association) s6 of
                            (Returns None, s7) \<Rightarrow>
                              eachAssociation env qa rest
                                (if InnerAssociations association = [] then err2 else None) s7
                          | (r, s7) \<Rightarrow> (r, s7))))))"
| "eachInner env query [] s = (Returns None, s)"
| "eachInner env query (i # rest) s =
     (case innerQueryFor query i s of
        (innerQuery, s2) \<Rightarrow>
          (case eagerAssociations env innerQuery (FieldByName i) s2 of
             (Returns None, s3) \<Rightarrow> eachInner env query rest s3
           | (r, s3) \<Rightarrow> (r, s3)))"
| "First env qa m s =
     (case First_select env qa m s of
        (Some err, s1) \<Rightarrow> (Returns (Some err), s1)
      | (None, s1) \<Rightarrow>
          if eager (queries s1 qa) then
            (case eagerAssociations env qa m s1 of
               (Panics f, s2) \<Rightarrow> (Panics f, s2)
             | (Returns err, s2) \<Rightarrow> (Returns err, disableEager qa s2))
          else (Returns None, s1))"
| "All env qa models s =
     (case All_select env qa models s of
        (Panics f, s1) \<Rightarrow> (Panics f, s1)
      | (Returns (Some err), s1) \<Rightarrow> (Returns (Some (Wrap err ''unable to fetch records'')), s1)
      | (Returns None, s1) \<Rightarrow>
          if eager (queries s1 qa) then
            (case eagerAssociations env qa models s1 of
               (Panics f, s2) \<Rightarrow> (Panics f, s2)
             | (Returns err, s2) \<Rightarrow> (Returns err, disableEager qa s2))
          else (Returns None, s1))"
  by pat_completeness auto

termination
proof -
  have a: "size (Interface a) < size a" for a
    by (cases a) simp
  have b: "size_list size (InnerAssociations a) < size a" for a
    by (cases a) simp
  have c: "size (FieldByName i) < size i" for i
    by (cases i) simp
  show ?thesis
    by (relation "measure (\<lambda>x. case x of
            Inl (Inl (env, qa, m, s)) \<Rightarrow> 2 * size m
          | Inl (Inr (Inl (env, qa, ms, s))) \<Rightarrow> 2 * size_list size ms + 1
          | Inl (Inr (Inr (env, qa, assos, err, s))) \<Rightarrow> 2 * size_list size assos + 1
          | Inr (Inl (env, qa, inners, s)) \<Rightarrow> 2 * size_list size inners + 1
          | Inr (Inr (Inl (env, qa, m, s))) \<Rightarrow> 2 * size m + 1
          | Inr (Inr (Inr (env, qa, m, s))) \<Rightarrow> 2 * size m + 1)")
       (simp_all (no_asm) add: a b c less_Suc_eq_le add.commute trans_less_add1 less_imp_le)
qed

text \<open>The equations of the six functions are unfolded where a proof asks for them.\<close>

declare eagerAssociations.simps [simp del] eachElement.simps [simp del]
  eachAssociation.simps [simp del] eachInner.simps [simp del] First.simps [simp del]
  All.simps [simp del]

definition Last :: "env \<Rightarrow> nat \<Rightarrow> model \<Rightarrow> memory \<Rightarrow> error option exec \<times> memory" where
  "Last env qa m s =
     (case Last_select env qa m s of
        (Some err, s1) \<Rightarrow> (Returns (Some err), s1)
      | (None, s1) \<Rightarrow>
          if eager (queries s1 qa) then
            (case eagerAssociations env qa m s1 of
               (Panics f, s2) \<Rightarrow> (Panics f, s2)
             | (Returns err, s2) \<Rightarrow> (Returns err, disableEager qa s2))
          else (Returns None, s1))"

text \<open>\<open>Connection.Load\<close>, on the connection at address \<open>c\<close>.\<close>

definition Load :: "env \<Rightarrow> nat \<Rightarrow> model \<Rightarrow> string list \<Rightarrow> memory \<Rightarrow> error option exec \<times> memory" where
  "Load env c m fieldNames s =
     (case Q c s of
        (q, s1) \<Rightarrow>
          (let s2 = update_query q (\<lambda>q. q\<lparr>eagerFields := fieldNames\<rparr>) s1
           in case eagerAssociations env q m s2 of
                (Panics f, s3) \<Rightarrow> (Panics f, s3)
              | (Returns err, s3) \<Rightarrow> (Returns err, disableEager q s3)))"

subsection \<open>\<open>Find\<close>\<close>

definition Find :: "env \<Rightarrow> nat \<Rightarrow> model \<Rightarrow> iface \<Rightarrow> memory \<Rightarrow> error option exec \<times> memory" where
  "Find env qa m idv s =
     (let idq = Model_whereID env m
      in case idv of
           UUIDv t \<Rightarrow> First env qa m (Where idq [Stringv t] qa s)
         | Stringv t \<Rightarrow>
             (let l = length t
              in if l > 0 \<and> (t ! 0 \<noteq> CHR ''0'' \<or> l = 1) then
                   (case Atoi t of
                      None \<Rightarrow> First env qa m (Where idq [Stringv t] qa s)
                    | Some n \<Rightarrow> First env qa m (Where idq [Intv n] qa s))
                 else First env qa m (Where idq [idv] qa s))
         | _ \<Rightarrow> First env qa m (Where idq [idv] qa s))"

section \<open>The has-one association\<close>

text \<open>
  Of a \<open>hasOneAssociation\<close>, \<open>SQLConstraint\<close> reads the owner's id, the owner's name and
  the foreign-key override. \<open>strings.ToLower\<close> maps text to lower case by the Unicode
  tables; it is passed in (\<open>asciiLower\<close> is what it does on ASCII text).
\<close>

record hasOneAssociation =
  ownerID :: iface
  ownerName :: string
  fkID :: string

definition asciiLower :: "string \<Rightarrow> string" where
  "asciiLower s =
     map (\<lambda>c. if 65 \<le> (of_char c :: nat) \<and> (of_char c :: nat) \<le> 90
              then char_of ((of_char c :: nat) + 32) else c) s"

definition SQLConstraint :: "(string \<Rightarrow> string) \<Rightarrow> hasOneAssociation \<Rightarrow> string \<times> iface list" where
  "SQLConstraint ToLower h =
     (let tn = ToLower (ownerName h);
          condition = tn @ ''_id = ?'';
          condition = (if fkID h \<noteq> [] then fkID h @ '' = ?'' else condition)
      in (condition, [ownerID h]))"

section \<open>How a call may change the memory\<close>

text \<open>
  \<open>frame s s'\<close>: from \<open>s\<close> to \<open>s'\<close> queries were only added, every query that \<open>s\<close>
  holds still has its connection and its paginator, no eager flag of such a query or of a
  connection was switched on, and calls were only added to the trace.
  \<open>quiet s s'\<close>: every query added from \<open>s\<close> to \<open>s'\<close> has its eager flag off and no
  paginator. \<open>good\<close> is both, and a call is \<open>settled\<close> when it has returned (it did
  not panic) and left the memory so.
\<close>

definition frame :: "memory \<Rightarrow> memory \<Rightarrow> bool" where
  "frame s s' =
     (next_query s \<le> next_query s' \<and>
      (\<forall>a. a < next_query s \<longrightarrow>
         Connection (queries s' a) = Connection (queries s a) \<and>
         Paginator (queries s' a) = Paginator (queries s a) \<and>
         (eager (queries s' a) \<longrightarrow> eager (queries s a))) \<and>
      (\<forall>c. conn_eager (conns s' c) \<longrightarrow> conn_eager (conns s c)) \<and>
      (\<exists>evs. trace s' = trace s @ evs))"

definition quiet :: "memory \<Rightarrow> memory \<Rightarrow> bool" where
  "quiet s s' =
     (\<forall>a. next_query s \<le> a \<and> a < next_query s' \<longrightarrow>
        \<not> eager (queries s' a) \<and> Paginator (queries s' a) = None)"

definition settled :: "memory \<Rightarrow> error option exec \<times> memory \<Rightarrow> bool" where
  "settled s r = (frame s (snd r) \<and> quiet s (snd r) \<and> (\<forall>f. fst r \<noteq> Panics f))"

definition good :: "memory \<Rightarrow> memory \<Rightarrow> bool" where
  "good s s' = (frame s s' \<and> quiet s s')"

section \<open>The clone\<close>

text \<open>
  The query that \<open>Exists\<close> and \<open>CountByField\<close> build and run for a query \<open>q\<close>: a
  fresh query on the connection of \<open>q\<close> with the clauses, columns and raw SQL of \<open>q\<close>
  and without its paginator, its order and its limit.
\<close>

definition cloned :: "Query \<Rightarrow> memory \<Rightarrow> Query" where
  "cloned q s =
     \<lparr>RawSQL = RawSQL q, whereClauses = whereClauses q, orderClauses = [], limitResults = 0,
      addColumns = addColumns q, Paginator = None, eager = conn_eager (conns s (Connection q)),
      eagerFields = conn_eagerFields (conns s (Connection q)), Connection = Connection q\<rparr>"

section \<open>Sample inputs\<close>

text \<open>
  A query without clauses, a memory that holds the query \<open>q\<close> (at every address) and
  paginators of the given page size, and a world in which every statement succeeds and
  the count is \<open>rows\<close>.
\<close>

definition sampleQuery :: Query where
  "sampleQuery =
     \<lparr>RawSQL = ([], []), whereClauses = [], orderClauses = [], limitResults = 0,
      addColumns = [], Paginator = None, eager = False, eagerFields = [], Connection = 0\<rparr>"

definition sampleMemory :: "Query \<Rightarrow> int \<Rightarrow> memory" where
  "sampleMemory q perPage =
     \<lparr>queries = (\<lambda>a. q), next_query = 1,
      conns = (\<lambda>a. \<lparr>conn_eager = eager q, conn_eagerFields = []\<rparr>),
      paginators = (\<lambda>a. \<lparr>PerPage = perPage, TotalEntriesSize = 0, CurrentEntriesSize = 0,
                           TotalPages = 0\<rparr>),
      trace = []\<rparr>"

definition sampleEnv :: "int \<Rightarrow> env" where
  "sampleEnv rows =
     \<lparr>Dialect_SelectOne = (\<lambda>q m. None), Dialect_SelectMany = (\<lambda>q m. None),
      Model_afterFind = (\<lambda>m. None), Model_whereID = (\<lambda>m. ''users.id = ?''),
      Query_ToSQL = (\<lambda>q m. (''SELECT users.* FROM users'', [])),
      Store_Get_bool = (\<lambda>sql args. (0 < rows, None)),
      Store_Get_rowCount = (\<lambda>sql args. (rows, None))\<rparr>"

text \<open>
  A user with a has-one profile and a sortable has-many list of posts, and a world in which
  every single-row SELECT fails with the error \<open>e\<close>.
\<close>

definition hasOneProfile :: assoc where
  "hasOneProfile =
     Association False Struct (''user_id = ?'', [Intv 1]) None (StructOf None []) []"

definition hasManyPosts :: assoc where
  "hasManyPosts =
     Association False Slice (''user_id = ?'', [Intv 1]) (Some ''created_at desc'')
       (SliceOf []) []"

definition sampleUser :: model where
  "sampleUser = StructOf None [hasOneProfile, hasManyPosts]"


section \<open>Properties of the builder and of \<open>Count\<close>\<close>

lemma tmpQuery_cloned:
  "update_query a (\<lambda>t. t\<lparr>limitResults := 0\<rparr>)
     (update_query a (\<lambda>t. t\<lparr>orderClauses := []\<rparr>)
       (update_query a (\<lambda>t. t\<lparr>Paginator := None\<rparr>)
         (Clone q a (snd (Q (Connection q) s))))) =
   s\<lparr>queries := (queries s)(a := cloned q s), next_query := Suc (next_query s)\<rparr>"
  if "a = next_query s"
  using that by (simp add: update_query_def Clone_def Q_def cloned_def)

lemma CountByField_memory:
  "snd (CountByField env q m field s) =
     (let t = cloned q s;
          sql = Query_ToSQL env t m;
          countQuery = ''SELECT COUNT('' @ field @ '') AS row_count FROM ('' @ stripLimit (fst sql) @ '') a''
      in s\<lparr>queries := (queries s)(next_query s := t), next_query := Suc (next_query s),
           trace := trace s @ [Get_call countQuery (snd sql)]\<rparr>)"
proof -
  have a: "fst (Q (Connection q) s) = next_query s" by (simp add: Q_def)
  show ?thesis
    unfolding CountByField_def
    apply (simp only: prod.case_eq_if Let_def a snd_conv fst_conv)
    apply (simp only: tmpQuery_cloned [OF refl])
    apply (simp add: record_call_def)
    done
qed

text \<open>Go's quotient, put up by one when the remainder is positive, is the ceiling.\<close>

lemma go_ceiling:
  fixes a b :: int
  assumes "0 < b"
  shows "(if a smod b > 0 then a sdiv b + 1 else a sdiv b) = \<lceil>real_of_int a / real_of_int b\<rceil>"
proof (cases "0 \<le> a")
  case True
  have "0 \<le> a mod b" using assms by simp
  then have m: "a mod b \<noteq> 0 \<Longrightarrow> 0 < a mod b" by simp
  from True assms m show ?thesis
    by (auto simp add: signed_divide_int_def signed_modulo_int_def sgn_if
          ceiling_divide_eq_div zdiv_zminus1_eq_if)
next
  case False
  have "0 \<le> (- a) mod b" using assms by simp
  then have m: "\<not> (- a) mod b < 0" by simp
  from False assms m show ?thesis
    by (auto simp add: signed_divide_int_def signed_modulo_int_def sgn_if
          ceiling_divide_eq_div)
qed

lemma go_pages_zero:
  fixes a b :: int
  assumes "0 < b" "0 \<le> a"
  shows "((if a smod b > 0 then a sdiv b + 1 else a sdiv b) = 0) = (a = 0)"
proof -
  have m: "0 \<le> a mod b" and d: "0 \<le> a div b"
    using assms by (simp_all add: pos_imp_zdiv_nonneg_iff)
  have e: "a = b * (a div b) + a mod b" by simp
  show ?thesis
  proof (cases "a = 0")
    case True
    then show ?thesis by simp
  next
    case False
    have "a div b = 0 \<Longrightarrow> a mod b > 0"
      using e False m by (metis add.left_neutral mult_zero_right order_le_less)
    with False assms m d show ?thesis
      by (auto simp add: signed_divide_int_def signed_modulo_int_def sgn_if)
  qed
qed

lemma CountByField_result:
  "fst (CountByField env q m field s) =
     Store_Get_rowCount env
       (''SELECT COUNT('' @ field @ '') AS row_count FROM (''
          @ stripLimit (fst (Query_ToSQL env (cloned q s) m)) @ '') a'')
       (snd (Query_ToSQL env (cloned q s) m))"
proof -
  have a: "fst (Q (Connection q) s) = next_query s" by (simp add: Q_def)
  show ?thesis
    unfolding CountByField_def
    apply (simp only: prod.case_eq_if Let_def a snd_conv fst_conv)
    apply (simp only: tmpQuery_cloned [OF refl])
    apply simp
    done
qed

lemma paginators_Count: "paginators (snd (Count env q m s)) = paginators s"
  by (simp add: Count_def CountByField_memory Let_def)

lemma paginateModel_counted:
  assumes pg: "Paginator (queries s qa) = Some pa"
    and ct: "Count env (queries s qa) (SliceOf st) s = ((ct, None), s1)"
    and pp: "PerPage (paginators s pa) \<noteq> 0"
  shows "paginateModel env qa (SliceOf st) s =
           (Returns None,
            update_paginator pa
              (\<lambda>P. P\<lparr>TotalEntriesSize := ct, CurrentEntriesSize := int (length st),
                      TotalPages := (if ct smod PerPage (paginators s pa) > 0
                                     then ct sdiv PerPage (paginators s pa) + 1
                                     else ct sdiv PerPage (paginators s pa))\<rparr>) s1)"
proof -
  have "paginators s1 = paginators s"
    using paginators_Count [of env "queries s qa" "SliceOf st" s] ct by simp
  with pg ct pp show ?thesis
    by (simp add: paginateModel_def update_paginator_def Let_def)
qed

lemma paginateModel_zero:
  assumes pg: "Paginator (queries s qa) = Some pa"
    and ct: "Count env (queries s qa) (SliceOf st) s = ((ct, None), s1)"
    and pp: "PerPage (paginators s pa) = 0"
  shows "fst (paginateModel env qa (SliceOf st) s) = Panics DivideByZero"
proof -
  have "paginators s1 = paginators s"
    using paginators_Count [of env "queries s qa" "SliceOf st" s] ct by simp
  with pg ct pp show ?thesis
    by (simp add: paginateModel_def update_paginator_def Let_def)
qed

lemma sample_Count:
  "Count (sampleEnv n) q m s = ((n, None), snd (Count (sampleEnv n) q m s))"
  by (simp add: Count_def CountByField_result sampleEnv_def prod_eq_iff)

section \<open>The resolver keeps the memory in order\<close>

lemma frame_refl: "frame s s"
  by (simp add: frame_def)

lemma frame_trans: "frame s s1 \<Longrightarrow> frame s1 s2 \<Longrightarrow> frame s s2"
  unfolding frame_def
  apply (elim conjE exE)
  apply (intro conjI allI impI)
       apply simp
      apply (metis less_le_trans)
     apply (metis less_le_trans)
    apply (metis less_le_trans)
   apply blast
  apply (metis append.assoc)
  done

lemma quiet_same: "next_query s' = next_query s \<Longrightarrow> quiet s s'"
  by (auto simp add: quiet_def)

lemma quiet_trans: "frame s s1 \<Longrightarrow> quiet s s1 \<Longrightarrow> frame s1 s2 \<Longrightarrow> quiet s1 s2 \<Longrightarrow> quiet s s2"
  unfolding frame_def quiet_def
  apply (elim conjE exE)
  apply (intro allI impI)
  subgoal for evs evs' a
    apply (cases "a < next_query s1")
     apply metis
    apply simp
    done
  done

lemma frame_update_query:
  assumes "Connection (f (queries s qa)) = Connection (queries s qa)"
    and "Paginator (f (queries s qa)) = Paginator (queries s qa)"
    and "eager (f (queries s qa)) \<longrightarrow> eager (queries s qa)"
  shows "frame s (update_query qa f s)"
  using assms by (simp add: frame_def update_query_def)

lemma next_update_query [simp]: "next_query (update_query qa f s) = next_query s"
  by (simp add: update_query_def)

lemma next_record_call [simp]: "next_query (record_call e s) = next_query s"
  by (simp add: record_call_def)

lemma frame_record_call: "frame s (record_call e s)"
  by (simp add: frame_def record_call_def)

lemma frame_Limit: "frame s (Limit n qa s)"
  by (simp add: Limit_def frame_update_query)

lemma frame_Order: "frame s (Order stmt qa s)"
  by (simp add: Order_def frame_update_query)

lemma next_Limit [simp]: "next_query (Limit n qa s) = next_query s"
  by (simp add: Limit_def)

lemma next_Order [simp]: "next_query (Order stmt qa s) = next_query s"
  by (simp add: Order_def)

lemma frame_disableEager: "frame s (disableEager qa s)"
  by (simp add: frame_def disableEager_def update_query_def Let_def)

lemma next_disableEager [simp]: "next_query (disableEager qa s) = next_query s"
  by (simp add: disableEager_def Let_def)

lemma frame_then_record: "frame s s1 \<Longrightarrow> frame s (record_call e s1)"
  using frame_trans frame_record_call by blast

lemma First_select_frame:
  "frame s (snd (First_select env qa m s)) \<and> next_query (snd (First_select env qa m s)) = next_query s"
proof -
  have "frame s (record_call (SelectOne_call (queries (Limit 1 qa s) qa) m) (Limit 1 qa s))"
    by (intro frame_then_record frame_Limit)
  then show ?thesis
    by (simp add: First_select_def Let_def frame_then_record split: option.splits)
qed

lemma Last_select_frame:
  "frame s (snd (Last_select env qa m s)) \<and> next_query (snd (Last_select env qa m s)) = next_query s"
proof -
  let ?s1 = "Order ''created_at DESC, id DESC'' qa (Limit 1 qa s)"
  have "frame s ?s1"
    using frame_trans [OF frame_Limit frame_Order] .
  then have "frame s (record_call (SelectOne_call (queries ?s1 qa) m) ?s1)"
    by (rule frame_then_record)
  then show ?thesis
    by (simp add: Last_select_def Let_def frame_then_record split: option.splits)
qed

lemma frame_update_paginator: "frame s s1 \<Longrightarrow> frame s (update_paginator pa f s1)"
  by (simp add: frame_def update_paginator_def)

lemma Count_frame: "frame s (snd (Count env q m s))"
  by (simp add: Count_def CountByField_memory Let_def frame_def)

lemma paginateModel_frame: "frame s (snd (paginateModel env qa m s))"
proof (cases "Paginator (queries s qa)")
  case None
  then show ?thesis by (simp add: paginateModel_def frame_refl)
next
  case (Some pa)
  obtain ct err s1 where c: "Count env (queries s qa) m s = ((ct, err), s1)"
    by (metis prod.exhaust)
  have f: "frame s s1" using Count_frame [of s env "queries s qa" m] c by simp
  show ?thesis
    using Some c f
    by (cases err; cases m)
      (simp_all add: paginateModel_def Let_def frame_update_paginator)
qed

lemma paginateModel_None:
  "Paginator (queries s qa) = None \<Longrightarrow> paginateModel env qa m s = (Returns None, s)"
  by (simp add: paginateModel_def)

lemma All_select_frame: "frame s (snd (All_select env qa m s))"
proof -
  let ?s1 = "record_call (SelectMany_call (queries s qa) m) s"
  have a: "frame s ?s1" by (rule frame_record_call)
  have b: "frame s (snd (paginateModel env qa m ?s1))"
    using frame_trans [OF a paginateModel_frame] .
  obtain r s2 where p: "paginateModel env qa m ?s1 = (r, s2)" by (metis prod.exhaust)
  from a b p show ?thesis
    by (simp add: All_select_def Let_def frame_then_record
          split: option.splits exec.splits)
qed

lemma All_select_None:
  assumes "Paginator (queries s qa) = None"
  shows "next_query (snd (All_select env qa m s)) = next_query s"
    and "fst (All_select env qa m s) \<noteq> Panics f"
proof -
  have "paginateModel env qa m (record_call (SelectMany_call (queries s qa) m) s)
          = (Returns None, record_call (SelectMany_call (queries s qa) m) s)"
    using assms by (simp add: paginateModel_None record_call_def)
  then show "next_query (snd (All_select env qa m s)) = next_query s"
    and "fst (All_select env qa m s) \<noteq> Panics f"
    by (simp_all add: All_select_def Let_def split: option.splits)
qed

lemma associationQuery_facts:
  assumes "associationQuery env qa a s = (query, s4)"
  shows "query = next_query s" and "next_query s4 = Suc (next_query s)" and "frame s s4"
    and "Connection (queries s4 query) = Connection (queries s qa)"
    and "Paginator (queries s4 query) = None"
    and "eager (queries s4 query) = conn_eager (conns s (Connection (queries s qa)))"
    and "conns s4 = conns s"
  using assms
  by (auto simp add: associationQuery_def Q_def Where_def Order_def RawQuery_def
        update_query_def Let_def frame_def split: option.splits if_splits)

lemma innerQueryFor_facts:
  assumes "innerQueryFor query i s = (innerQuery, s2)"
  shows "innerQuery = next_query s" and "next_query s2 = Suc (next_query s)" and "frame s s2"
    and "Connection (queries s2 innerQuery) = Connection (queries s query)"
    and "Paginator (queries s2 innerQuery) = None"
    and "eager (queries s2 innerQuery) = conn_eager (conns s (Connection (queries s query)))"
    and "conns s2 = conns s"
  using assms
  by (auto simp add: innerQueryFor_def Q_def update_query_def Let_def frame_def)

lemma quiet_fresh:
  assumes "next_query s1 = Suc (next_query s)" and "\<not> eager (queries s1 (next_query s))"
    and "Paginator (queries s1 (next_query s)) = None"
  shows "quiet s s1"
  using assms by (auto simp add: quiet_def less_Suc_eq_le)

lemma good_refl: "good s s"
  by (simp add: good_def frame_refl quiet_same)

lemma good_trans: "good s s1 \<Longrightarrow> good s1 s2 \<Longrightarrow> good s s2"
  unfolding good_def using frame_trans quiet_trans by blast

lemma good_same: "frame s s' \<Longrightarrow> next_query s' = next_query s \<Longrightarrow> good s s'"
  by (simp add: good_def quiet_same)

lemma settled_iff: "settled s (r, s') = (good s s' \<and> (\<forall>f. r \<noteq> Panics f))"
  by (simp add: settled_def good_def)

lemma good_settled: "good s s1 \<Longrightarrow> settled s1 r \<Longrightarrow> settled s r"
  by (cases r) (auto simp add: settled_iff intro: good_trans)

lemma frame_pre:
  assumes "frame s s'" and "qa < next_query s"
    and "\<not> conn_eager (conns s (Connection (queries s qa)))"
  shows "qa < next_query s'" and "\<not> conn_eager (conns s' (Connection (queries s' qa)))"
  using assms by (auto simp add: frame_def)

lemma frame_less: "frame s s' \<Longrightarrow> qa < next_query s \<Longrightarrow> qa < next_query s'"
  by (auto simp add: frame_def)

lemma flags_off_good:
  "good s (update_query qa (\<lambda>q. q\<lparr>eager := False\<rparr>) s0
            \<lparr>conns := (conns (update_query qa (\<lambda>q. q\<lparr>eager := False\<rparr>) s0))
               (c := (conns (update_query qa (\<lambda>q. q\<lparr>eager := False\<rparr>) s0) c)\<lparr>conn_eager := False\<rparr>)\<rparr>)"
  if "s0 = record_call e s"
  using that by (auto simp add: good_def frame_def quiet_def update_query_def record_call_def)

lemma resolver_settled:
  "qa < next_query s \<longrightarrow> settled s (eagerAssociations env qa m s)"
  "qa < next_query s \<longrightarrow> settled s (eachElement env qa ms s)"
  "qa < next_query s \<and> \<not> conn_eager (conns s (Connection (queries s qa)))
     \<longrightarrow> settled s (eachAssociation env qa assos err s)"
  "query < next_query s \<and> \<not> conn_eager (conns s (Connection (queries s query)))
     \<longrightarrow> settled s (eachInner env query inners s)"
  "qa < next_query s \<longrightarrow> settled s (First env qa m s)"
  "qa < next_query s \<longrightarrow>
     frame s (snd (All env qa m s)) \<and>
     (Paginator (queries s qa) = None \<longrightarrow> settled s (All env qa m s))"
proof (induction env qa m s and env qa ms s and env qa assos err s and env query inners s
         and env qa m s and env qa m s
       rule: eagerAssociations_eachElement_eachAssociation_eachInner_First_All.induct)
  case (1 env qa v s)
  then show ?case by (simp add: eagerAssociations.simps)
next
  case (2 env qa disc assos s)
  let ?s0 = "record_call (ForStruct_call (StructOf disc assos) (eagerFields (queries s qa))) s"
  let ?s1 = "update_query qa (\<lambda>q. q\<lparr>eager := False\<rparr>) ?s0"
  let ?c = "Connection (queries ?s1 qa)"
  let ?s2 = "?s1\<lparr>conns := (conns ?s1)(?c := (conns ?s1 ?c)\<lparr>conn_eager := False\<rparr>)\<rparr>"
  show ?case
  proof (intro impI)
    assume pre: "qa < next_query s"
    show "settled s (eagerAssociations env qa (StructOf disc assos) s)"
    proof (cases disc)
      case (Some e)
      have "good s ?s0" by (simp add: good_same frame_record_call)
      then show ?thesis using Some
        by (simp add: eagerAssociations.simps Let_def settled_iff)
    next
      case None
      have g: "good s ?s2" by (rule flags_off_good) simp
      have p2: "qa < next_query ?s2 \<and> \<not> conn_eager (conns ?s2 (Connection (queries ?s2 qa)))"
        using pre by (simp add: update_query_def record_call_def)
      have "settled ?s2 (eachAssociation env qa assos None ?s2)"
        using "2.IH" [OF refl None refl refl refl] p2 by blast
      then have "settled s (eachAssociation env qa assos None ?s2)"
        using g good_settled by blast
      then show ?thesis using None
        by (simp add: eagerAssociations.simps Let_def)
    qed
  qed
next
  case (3 env qa s)
  show ?case by (simp add: eachElement.simps settled_iff good_refl)
next
  case (4 env qa m ms s)
  show ?case
  proof (intro impI)
    assume pre: "qa < next_query s"
    obtain r1 s1 where e: "eagerAssociations env qa m s = (r1, s1)" by (metis prod.exhaust)
    have s1: "settled s (r1, s1)" using "4.IH"(1) pre e by simp
    then have g: "good s s1" by (simp add: settled_iff)
    show "settled s (eachElement env qa (m # ms) s)"
    proof (cases "r1 = Returns None")
      case True
      have "qa < next_query s1" using g pre by (auto simp add: good_def frame_less)
      then have "settled s1 (eachElement env qa ms s1)"
        using "4.IH"(2) [OF e [symmetric] True refl] by blast
      then have "settled s (eachElement env qa ms s1)" using g good_settled by blast
      then show ?thesis using e True by (simp add: eachElement.simps)
    next
      case False
      then have "eachElement env qa (m # ms) s = (r1, s1)"
        using e by (simp add: eachElement.simps split: exec.splits option.splits)
      then show ?thesis using s1 by simp
    qed
  qed
next
  case (5 env qa err s)
  show ?case by (simp add: eachAssociation.simps settled_iff good_refl)
next
  case (6 env qa association rest err s)
  show ?case
  proof (intro impI, elim conjE)
    assume pre: "qa < next_query s"
      and off: "\<not> conn_eager (conns s (Connection (queries s qa)))"
    show "settled s (eachAssociation env qa (association # rest) err s)"
    proof (cases "Skipped association")
      case True
      then show ?thesis using "6.IH"(1) pre off by (simp add: eachAssociation.simps)
    next
      case False
      obtain query s4 where aq: "associationQuery env qa association s = (query, s4)"
        by (metis prod.exhaust)
      note f = associationQuery_facts [OF aq]
      have g4: "good s s4"
        using f off by (simp add: good_def quiet_fresh)
      have q4: "query < next_query s4" using f by simp
      obtain r5 s5 where e5: "(if Kind association = Slice \<or> Kind association = Array
                    then All env query (Interface association) s4
                    else (Returns err, s4)) = (r5, s5)" by (metis prod.exhaust)
      have st5: "settled s4 (r5, s5)"
      proof (cases "Kind association = Slice \<or> Kind association = Array")
        case True
        then show ?thesis
          using "6.IH"(2) [OF False aq [symmetric] True] q4 f(5) e5 by simp
      next
        case False
        then show ?thesis using e5 by (auto simp add: settled_iff good_refl)
      qed
      then obtain err1 where r5: "r5 = Returns err1"
        by (cases r5) (auto simp add: settled_iff)
      have g5: "good s4 s5" using st5 by (simp add: settled_iff)
      have q5: "query < next_query s5" using g5 q4 by (auto simp add: good_def frame_less)
      obtain r6 s6 where e6: "(if Kind association = Struct
                         then First env query (Interface association) s5
                         else (Returns err1, s5)) = (r6, s6)" by (metis prod.exhaust)
      have st6: "settled s5 (r6, s6)"
      proof (cases "Kind association = Struct")
        case True
        then show ?thesis
          using "6.IH"(3) [OF False aq [symmetric] e5 [symmetric] r5 True] q5 e6 by simp
      next
        case False
        then show ?thesis using e6 by (auto simp add: settled_iff good_refl)
      qed
      then obtain err2 where r6: "r6 = Returns err2"
        by (cases r6) (auto simp add: settled_iff)
      have g6: "good s5 s6" using st6 by (simp add: settled_iff)
      have g46: "good s4 s6" using g5 g6 good_trans by blast
      have gs6: "good s s6" using g4 g46 good_trans by blast
      have off4: "\<not> conn_eager (conns s4 (Connection (queries s4 query)))"
        using f off by simp
      have p6: "query < next_query s6 \<and> \<not> conn_eager (conns s6 (Connection (queries s6 query)))"
        using frame_pre [OF _ q4 off4, of s6] g46 by (simp add: good_def)
      show ?thesis
      proof (cases "fatal err2")
        case True
        have "eachAssociation env qa (association # rest) err s = (Returns err2, s6)"
          using False aq e5 r5 e6 r6 True by (simp add: eachAssociation.simps)
        then show ?thesis using gs6 by (simp add: settled_iff)
      next
        case nf: False
        obtain r7 s7 where e7: "eachInner env query (InnerAssociations association) s6 = (r7, s7)"
          by (metis prod.exhaust)
        have st7: "settled s6 (r7, s7)"
          using "6.IH"(4) [OF False aq [symmetric] e5 [symmetric] r5 e6 [symmetric] r6 nf] p6 e7
          by simp
        then have gs7: "good s s7" using gs6 good_trans by (auto simp add: settled_iff)
        show ?thesis
        proof (cases "r7 = Returns None")
          case True
          let ?err = "if InnerAssociations association = [] then err2 else None"
          have p7: "qa < next_query s7 \<and> \<not> conn_eager (conns s7 (Connection (queries s7 qa)))"
            using frame_pre [OF _ pre off, of s7] gs7 by (simp add: good_def)
          have "settled s7 (eachAssociation env qa rest ?err s7)"
            using "6.IH"(5) [OF False aq [symmetric] e5 [symmetric] r5 e6 [symmetric] r6 nf
                e7 [symmetric] True refl] p7 by blast
          then have "settled s (eachAssociation env qa rest ?err s7)"
            using gs7 good_settled by blast
          moreover have "eachAssociation env qa (association # rest) err s
                           = eachAssociation env qa rest ?err s7"
            using False aq e5 r5 e6 r6 nf e7 True by (simp add: eachAssociation.simps)
          ultimately show ?thesis by simp
        next
          case nr: False
          have "eachAssociation env qa (association # rest) err s = (r7, s7)"
            using False aq e5 r5 e6 r6 nf e7 nr
            by (simp add: eachAssociation.simps split: exec.splits option.splits)
          moreover have "settled s (r7, s7)" using st7 gs6 good_settled by blast
          ultimately show ?thesis by simp
        qed
      qed
    qed
  qed
next
  case (7 env query s)
  show ?case by (simp add: eachInner.simps settled_iff good_refl)
next
  case (8 env query i rest s)
  show ?case
  proof (intro impI, elim conjE)
    assume pre: "query < next_query s"
      and off: "\<not> conn_eager (conns s (Connection (queries s query)))"
    obtain innerQuery s2 where iq: "innerQueryFor query i s = (innerQuery, s2)"
      by (metis prod.exhaust)
    note f = innerQueryFor_facts [OF iq]
    have g2: "good s s2" using f off by (simp add: good_def quiet_fresh)
    have q2: "innerQuery < next_query s2" using f by simp
    obtain r3 s3 where e3: "eagerAssociations env innerQuery (FieldByName i) s2 = (r3, s3)"
      by (metis prod.exhaust)
    have st3: "settled s2 (r3, s3)" using "8.IH"(1) [OF iq [symmetric]] q2 e3 by simp
    then have gs3: "good s s3" using g2 good_trans by (auto simp add: settled_iff)
    show "settled s (eachInner env query (i # rest) s)"
    proof (cases "r3 = Returns None")
      case True
      have p3: "query < next_query s3 \<and> \<not> conn_eager (conns s3 (Connection (queries s3 query)))"
        using frame_pre [OF _ pre off, of s3] gs3 by (simp add: good_def)
      have "settled s3 (eachInner env query rest s3)"
        using "8.IH"(2) [OF iq [symmetric] e3 [symmetric] True refl] p3 by blast
      then have "settled s (eachInner env query rest s3)" using gs3 good_settled by blast
      then show ?thesis using iq e3 True by (simp add: eachInner.simps)
    next
      case False
      have "eachInner env query (i # rest) s = (r3, s3)"
        using iq e3 False by (simp add: eachInner.simps split: exec.splits option.splits)
      moreover have "settled s (r3, s3)" using st3 g2 good_settled by blast
      ultimately show ?thesis by simp
    qed
  qed
next
  case (9 env qa m s)
  show ?case
  proof (intro impI)
    assume pre: "qa < next_query s"
    obtain err s1 where e1: "First_select env qa m s = (err, s1)" by (metis prod.exhaust)
    have g1: "good s s1" using First_select_frame [of s env qa m] e1 by (simp add: good_same)
    have q1: "qa < next_query s1" using g1 pre by (auto simp add: good_def frame_less)
    show "settled s (First env qa m s)"
    proof (cases "err = None \<and> eager (queries s1 qa)")
      case True
      obtain r2 s2 where e2: "eagerAssociations env qa m s1 = (r2, s2)" by (metis prod.exhaust)
      have st2: "settled s1 (r2, s2)"
        using "9.IH" [OF e1 [symmetric]] True q1 e2 by simp
      then obtain err' where r2: "r2 = Returns err'" by (cases r2) (auto simp add: settled_iff)
      have "good s2 (disableEager qa s2)" by (simp add: good_same frame_disableEager)
      then have "good s (disableEager qa s2)"
        using g1 st2 good_trans by (auto simp add: settled_iff)
      moreover have "First env qa m s = (Returns err', disableEager qa s2)"
        using e1 True e2 r2 by (simp add: First.simps)
      ultimately show ?thesis by (simp add: settled_iff)
    next
      case False
      then have "\<exists>e. First env qa m s = (Returns e, s1)"
        using e1 by (auto simp add: First.simps split: option.splits)
      then show ?thesis using g1 by (auto simp add: settled_iff)
    qed
  qed
next
  case (10 env qa models s)
  show ?case
  proof (intro impI)
    assume pre: "qa < next_query s"
    obtain r1 s1 where e1: "All_select env qa models s = (r1, s1)" by (metis prod.exhaust)
    have f1: "frame s s1" using All_select_frame [of s env qa models] e1 by simp
    have q1: "qa < next_query s1" using f1 pre by (rule frame_less)
    have n1: "Paginator (queries s qa) = None \<Longrightarrow> good s s1 \<and> (\<forall>f. r1 \<noteq> Panics f)"
      using All_select_None [of s qa env models] e1 f1 by (simp add: good_same)
    show "frame s (snd (All env qa models s)) \<and>
          (Paginator (queries s qa) = None \<longrightarrow> settled s (All env qa models s))"
    proof (cases "r1 = Returns None \<and> eager (queries s1 qa)")
      case True
      obtain r2 s2 where e2: "eagerAssociations env qa models s1 = (r2, s2)"
        by (metis prod.exhaust)
      have st2: "settled s1 (r2, s2)"
        using "10.IH" [OF e1 [symmetric] _ refl] True q1 e2 by simp
      then obtain err' where r2: "r2 = Returns err'" by (cases r2) (auto simp add: settled_iff)
      have g2: "good s1 (disableEager qa s2)"
        using st2 good_trans [OF _ good_same [OF frame_disableEager]]
        by (simp add: settled_iff)
      have res: "All env qa models s = (Returns err', disableEager qa s2)"
        using e1 True e2 r2 by (simp add: All.simps)
      have "frame s (disableEager qa s2)" using f1 g2 frame_trans by (auto simp add: good_def)
      moreover have "Paginator (queries s qa) = None \<Longrightarrow> good s (disableEager qa s2)"
        using n1 g2 good_trans by blast
      ultimately show ?thesis using res by (simp add: settled_iff)
    next
      case False
      then have "\<exists>r. All env qa models s = (r, s1) \<and> ((\<forall>f. r1 \<noteq> Panics f) \<longrightarrow> (\<forall>f. r \<noteq> Panics f))"
        using e1 by (auto simp add: All.simps split: option.splits exec.splits)
      then show ?thesis using f1 n1 by (auto simp add: settled_iff)
    qed
  qed
qed

section \<open>Pagination\<close>

text \<open>
  Claim C5, as amended. Without a paginator \<open>paginateModel\<close> returns at once and leaves
  the memory as it was. With a paginator of a positive page size, after a successful
  \<open>Count\<close> that returned \<open>ct\<close>, it returns without error, has stored \<open>ct\<close> as
  \<open>TotalEntriesSize\<close> and has set \<open>TotalPages\<close> to the ceiling of
  \<open>ct / PerPage\<close>; when \<open>ct\<close> is not negative, \<open>TotalPages\<close> is \<open>0\<close> exactly when
  \<open>ct\<close> is \<open>0\<close>.
\<close>

theorem paginateModel_TotalPages:
  "(Paginator (queries s qa) = None \<longrightarrow> paginateModel env qa models s = (Returns None, s)) \<and>
   (Paginator (queries s qa) = Some pa \<and>
    Count env (queries s qa) (SliceOf st) s = ((ct, None), s1) \<and>
    0 < PerPage (paginators s pa) \<longrightarrow>
      fst (paginateModel env qa (SliceOf st) s) = Returns None \<and>
      TotalEntriesSize (paginators (snd (paginateModel env qa (SliceOf st) s)) pa) = ct \<and>
      TotalPages (paginators (snd (paginateModel env qa (SliceOf st) s)) pa) =
        \<lceil>real_of_int ct / real_of_int (PerPage (paginators s pa))\<rceil> \<and>
      (0 \<le> ct \<longrightarrow>
         (TotalPages (paginators (snd (paginateModel env qa (SliceOf st) s)) pa) = 0) = (ct = 0)))"
proof (intro conjI impI)
  assume "Paginator (queries s qa) = None"
  then show "paginateModel env qa models s = (Returns None, s)"
    by (simp add: paginateModel_def)
next
  assume h: "Paginator (queries s qa) = Some pa \<and>
    Count env (queries s qa) (SliceOf st) s = ((ct, None), s1) \<and> 0 < PerPage (paginators s pa)"
  then have pp: "PerPage (paginators s pa) \<noteq> 0" by simp
  have ps: "paginators s1 = paginators s"
    using paginators_Count [of env "queries s qa" "SliceOf st" s] h by simp
  note e = paginateModel_counted [OF conjunct1 [OF h] conjunct1 [OF conjunct2 [OF h]] pp]
  show "fst (paginateModel env qa (SliceOf st) s) = Returns None" by (simp add: e)
  show "TotalEntriesSize (paginators (snd (paginateModel env qa (SliceOf st) s)) pa) = ct"
    by (simp add: e update_paginator_def)
  show "TotalPages (paginators (snd (paginateModel env qa (SliceOf st) s)) pa) =
        \<lceil>real_of_int ct / real_of_int (PerPage (paginators s pa))\<rceil>"
    using go_ceiling [of "PerPage (paginators s pa)" ct] h
    by (simp add: e update_paginator_def ps split del: if_split)
  assume "0 \<le> ct"
  then show "(TotalPages (paginators (snd (paginateModel env qa (SliceOf st) s)) pa) = 0) = (ct = 0)"
    using go_pages_zero [of "PerPage (paginators s pa)" ct] h
    by (simp add: e update_paginator_def ps split del: if_split)
qed

theorem paginateModel_TotalPages_witness:
  "paginateModel (sampleEnv 23) 0 (StructOf None []) (sampleMemory sampleQuery 10)
     = (Returns None, sampleMemory sampleQuery 10) \<and>
   TotalPages (paginators (snd (paginateModel (sampleEnv 23) 0 (SliceOf [])
       (sampleMemory (sampleQuery\<lparr>Paginator := Some 0\<rparr>) 10))) 0) = 3 \<and>
   TotalPages (paginators (snd (paginateModel (sampleEnv 20) 0 (SliceOf [])
       (sampleMemory (sampleQuery\<lparr>Paginator := Some 0\<rparr>) 10))) 0) = 2 \<and>
   TotalPages (paginators (snd (paginateModel (sampleEnv 0) 0 (SliceOf [])
       (sampleMemory (sampleQuery\<lparr>Paginator := Some 0\<rparr>) 10))) 0) = 0"
proof -
  let ?p = "sampleMemory (sampleQuery\<lparr>Paginator := Some 0\<rparr>) 10"
  have a: "Paginator (queries (sampleMemory sampleQuery 10) 0) = None"
    by (simp add: sampleMemory_def sampleQuery_def)
  have b: "Paginator (queries ?p 0) = Some 0 \<and>
           Count (sampleEnv n) (queries ?p 0) (SliceOf []) ?p
             = ((n, None), snd (Count (sampleEnv n) (queries ?p 0) (SliceOf []) ?p)) \<and>
           0 < PerPage (paginators ?p 0)" for n
    using sample_Count [of n "queries ?p 0" "SliceOf []" ?p] by (simp add: sampleMemory_def)
  have pp: "PerPage (paginators ?p 0) = 10" by (simp add: sampleMemory_def)
  have c1: "\<lceil>real_of_int 23 / real_of_int 10\<rceil> = (3::int)" by (simp add: ceiling_divide_eq_div)
  have c2: "\<lceil>real_of_int 20 / real_of_int 10\<rceil> = (2::int)" by (simp add: ceiling_divide_eq_div)
  show ?thesis
    using paginateModel_TotalPages [where s = "sampleMemory sampleQuery 10" and qa = 0
          and env = "sampleEnv 23" and models = "StructOf None []"] a
      paginateModel_TotalPages [where s = ?p and qa = 0 and pa = 0 and env = "sampleEnv 23"
          and st = "[]" and ct = 23, THEN conjunct2, rule_format, OF b]
      paginateModel_TotalPages [where s = ?p and qa = 0 and pa = 0 and env = "sampleEnv 20"
          and st = "[]" and ct = 20, THEN conjunct2, rule_format, OF b]
      paginateModel_TotalPages [where s = ?p and qa = 0 and pa = 0 and env = "sampleEnv 0"
          and st = "[]" and ct = 0, THEN conjunct2, rule_format, OF b]
    by (simp add: pp ceiling_divide_eq_div)
qed

text \<open>
  The claim as it was stated speaks of every paginator. With a page size of \<open>-10\<close> and
  23 rows Go's division gives \<open>-2\<close> with remainder \<open>3\<close>, so \<open>TotalPages\<close> becomes
  \<open>-1\<close>, while the ceiling of \<open>23 / -10\<close> is \<open>-2\<close>; and with a page size of \<open>0\<close>
  no \<open>TotalPages\<close> is computed at all.
\<close>

theorem paginateModel_nonpositive_PerPage:
  "TotalPages (paginators (snd (paginateModel (sampleEnv 23) 0 (SliceOf [])
       (sampleMemory (sampleQuery\<lparr>Paginator := Some 0\<rparr>) (- 10)))) 0) = - 1 \<and>
   \<lceil>real_of_int 23 / real_of_int (- 10)\<rceil> = (- 2 :: int) \<and>
   fst (paginateModel (sampleEnv 23) 0 (SliceOf [])
          (sampleMemory (sampleQuery\<lparr>Paginator := Some 0\<rparr>) 0)) = Panics DivideByZero"
proof -
  let ?p = "sampleMemory (sampleQuery\<lparr>Paginator := Some 0\<rparr>) (- 10)"
  let ?z = "sampleMemory (sampleQuery\<lparr>Paginator := Some 0\<rparr>) 0"
  have "paginateModel (sampleEnv 23) 0 (SliceOf []) ?p = (Returns None,
            update_paginator 0
              (\<lambda>P. P\<lparr>TotalEntriesSize := 23, CurrentEntriesSize := int (length ([]::model list)),
                      TotalPages := (if 23 smod PerPage (paginators ?p 0) > 0
                                     then 23 sdiv PerPage (paginators ?p 0) + 1
                                     else 23 sdiv PerPage (paginators ?p 0))\<rparr>)
              (snd (Count (sampleEnv 23) (queries ?p 0) (SliceOf []) ?p)))"
    by (rule paginateModel_counted) (simp_all add: sampleMemory_def sample_Count [symmetric])
  moreover have "Paginator (queries ?z 0) = Some 0" and "PerPage (paginators ?z 0) = 0"
    by (simp_all add: sampleMemory_def)
  then have "fst (paginateModel (sampleEnv 23) 0 (SliceOf []) ?z) = Panics DivideByZero"
    using paginateModel_zero [OF _ sample_Count] by blast
  ultimately show ?thesis
    by (simp add: update_paginator_def paginators_Count sampleMemory_def
        signed_divide_int_def signed_modulo_int_def ceiling_divide_eq_div)
qed

text \<open>
  Claim C10. With a paginator attached and after a successful \<open>Count\<close>,
  \<open>paginateModel\<close> divides by \<open>PerPage\<close> unguarded: with a page size of \<open>0\<close> it
  panics with a division by zero instead of returning an error, and with any other page
  size (every positive one among them) it returns without error.
\<close>

theorem paginateModel_divide_by_zero:
  assumes "Paginator (queries s qa) = Some pa"
    and "Count env (queries s qa) (SliceOf st) s = ((ct, None), s1)"
  shows "(PerPage (paginators s pa) = 0 \<longrightarrow>
            fst (paginateModel env qa (SliceOf st) s) = Panics DivideByZero) \<and>
         (PerPage (paginators s pa) \<noteq> 0 \<longrightarrow>
            fst (paginateModel env qa (SliceOf st) s) = Returns None)"
  using paginateModel_zero [OF assms] paginateModel_counted [OF assms] by simp

theorem paginateModel_divide_by_zero_witness:
  "fst (paginateModel (sampleEnv 23) 0 (SliceOf [])
          (sampleMemory (sampleQuery\<lparr>Paginator := Some 0\<rparr>) 0)) = Panics DivideByZero \<and>
   fst (paginateModel (sampleEnv 23) 0 (SliceOf [])
          (sampleMemory (sampleQuery\<lparr>Paginator := Some 0\<rparr>) 10)) = Returns None"
proof -
  have a: "Paginator (queries (sampleMemory (sampleQuery\<lparr>Paginator := Some 0\<rparr>) n) 0) = Some 0"
    for n by (simp add: sampleMemory_def)
  have b: "PerPage (paginators (sampleMemory q n) 0) = n" for q n
    by (simp add: sampleMemory_def)
  show ?thesis
    using paginateModel_divide_by_zero [OF a [of 0] sample_Count]
      paginateModel_divide_by_zero [OF a [of 10] sample_Count]
    by (simp add: b)
qed

section \<open>\<open>Find\<close> and the id it looks up\<close>

lemma Atoi_examples: "Atoi ''42'' = Some 42" "Atoi ''4x2'' = None" "Atoi ''-7'' = Some (- 7)"
  "Atoi ''+'' = None" "Atoi ''0'' = Some 0"
  by code_simp+

text \<open>
  Claim C2. For a string id \<open>t\<close>, \<open>Find\<close> is \<open>First\<close> on the query with one more
  WHERE clause, the id condition bound to one value. When \<open>t\<close> is not empty and does not
  start with \<open>0\<close> or has length 1, \<open>Atoi\<close> is tried: the value is the integer it
  parsed, or the string \<open>t\<close> itself when it failed. When \<open>t\<close> starts with \<open>0\<close> and is
  longer than one byte, the value is the string \<open>t\<close>, whatever \<open>Atoi\<close> would say.
\<close>

theorem Find_string_id:
  "(t \<noteq> [] \<and> (hd t \<noteq> CHR ''0'' \<or> length t = 1) \<and> Atoi t = Some n \<longrightarrow>
      Find env qa m (Stringv t) s = First env qa m (Where (Model_whereID env m) [Intv n] qa s)) \<and>
   (t \<noteq> [] \<and> (hd t \<noteq> CHR ''0'' \<or> length t = 1) \<and> Atoi t = None \<longrightarrow>
      Find env qa m (Stringv t) s = First env qa m (Where (Model_whereID env m) [Stringv t] qa s)) \<and>
   (hd t = CHR ''0'' \<and> 1 < length t \<longrightarrow>
      Find env qa m (Stringv t) s = First env qa m (Where (Model_whereID env m) [Stringv t] qa s))"
  by (cases t) (simp_all add: Find_def Let_def)

theorem Find_string_id_witness:
  "Find (sampleEnv 1) 0 (StructOf None []) (Stringv ''42'') (sampleMemory sampleQuery 10)
     = Find (sampleEnv 1) 0 (StructOf None []) (Intv 42) (sampleMemory sampleQuery 10) \<and>
   Find (sampleEnv 1) 0 (StructOf None []) (Stringv ''4x2'') (sampleMemory sampleQuery 10)
     = First (sampleEnv 1) 0 (StructOf None [])
         (Where ''users.id = ?'' [Stringv ''4x2''] 0 (sampleMemory sampleQuery 10)) \<and>
   Find (sampleEnv 1) 0 (StructOf None []) (Stringv ''007'') (sampleMemory sampleQuery 10)
     = First (sampleEnv 1) 0 (StructOf None [])
         (Where ''users.id = ?'' [Stringv ''007''] 0 (sampleMemory sampleQuery 10))"
proof -
  have w: "Model_whereID (sampleEnv 1) m = ''users.id = ?''" for m
    by (simp add: sampleEnv_def)
  have i: "Find (sampleEnv 1) 0 (StructOf None []) (Intv 42) (sampleMemory sampleQuery 10)
     = First (sampleEnv 1) 0 (StructOf None [])
         (Where ''users.id = ?'' [Intv 42] 0 (sampleMemory sampleQuery 10))"
    by (simp add: Find_def w)
  show ?thesis
    using Find_string_id [of "''42''" 42 "sampleEnv 1" 0 "StructOf None []" "sampleMemory sampleQuery 10"]
      Find_string_id [of "''4x2''" 0 "sampleEnv 1" 0 "StructOf None []" "sampleMemory sampleQuery 10"]
      Find_string_id [of "''007''" 0 "sampleEnv 1" 0 "StructOf None []" "sampleMemory sampleQuery 10"]
    by (simp add: Atoi_examples w i)
qed

section \<open>\<open>Select\<close>\<close>

lemma Select_eq:
  "Select fieldNames qa s =
     update_query qa
       (\<lambda>q. q\<lparr>addColumns := addColumns q @ filter (\<lambda>f. TrimSpace f \<noteq> []) fieldNames\<rparr>) s"
proof (induction fieldNames arbitrary: s)
  case Nil
  show ?case by (simp add: Select_def update_query_def)
next
  case (Cons f fs)
  have "Select (f # fs) qa s =
          Select fs qa (if TrimSpace f \<noteq> [] then
                          update_query qa (\<lambda>q. q\<lparr>addColumns := addColumns q @ [f]\<rparr>) s else s)"
    by (simp add: Select_def)
  then show ?case
    by (simp add: Cons.IH update_query_def)
qed

lemma blank_examples:
  "TrimSpace ''name'' = ''name''" "TrimSpace '' '' = []" "TrimSpace ''email'' = ''email''"
  "TrimSpace '' name '' = ''name''"
  by code_simp+

text \<open>
  Claim C7, as amended. \<open>Select\<close> appends to the columns of the query exactly the fields
  that are not blank (empty or all white space), in their order and as they were passed;
  nothing else of the memory changes. \<open>Select("name", " ", "email")\<close> registers the two
  columns \<open>name\<close> and \<open>email\<close>.
\<close>

theorem Select_appends_nonblank:
  "Select fieldNames qa s =
     update_query qa
       (\<lambda>q. q\<lparr>addColumns := addColumns q @ filter (\<lambda>f. TrimSpace f \<noteq> []) fieldNames\<rparr>) s \<and>
   addColumns (queries (Select fieldNames qa s) qa) =
     addColumns (queries s qa) @ filter (\<lambda>f. TrimSpace f \<noteq> []) fieldNames \<and>
   addColumns (queries (Select [''name'', '' '', ''email''] 0 (sampleMemory sampleQuery 10)) 0) =
     [''name'', ''email'']"
  by (simp add: Select_eq update_query_def blank_examples sampleMemory_def sampleQuery_def)

text \<open>
  The claim as it was stated has the column names trimmed. \<open>Select(" name ")\<close> registers
  the column with its blanks, not the trimmed name: \<open>TrimSpace\<close> only decides whether a
  field is kept.
\<close>

theorem Select_keeps_untrimmed:
  "addColumns (queries (Select ['' name ''] 0 (sampleMemory sampleQuery 10)) 0) = ['' name ''] \<and>
   map TrimSpace (filter (\<lambda>f. TrimSpace f \<noteq> []) ['' name '']) = [''name'']"
  by (simp add: Select_eq update_query_def blank_examples sampleMemory_def sampleQuery_def)

section \<open>The constraint of a has-one association\<close>

lemma asciiLower_User: "asciiLower ''User'' = ''user''"
  by code_simp

text \<open>
  Claim C9. Without a foreign-key override (\<open>fkID\<close> empty) the constraint of a has-one
  association is the condition made of the owner's name in lower case (the code's \<open>tn\<close>)
  followed by \<open>_id = ?\<close>; with an override it is the override column followed by
  \<open> = ?\<close>. Either way the bound arguments are the owner's id and nothing else.
\<close>

theorem SQLConstraint_hasOne:
  "(fkID h = [] \<longrightarrow>
      SQLConstraint ToLower h = (ToLower (ownerName h) @ ''_id = ?'', [ownerID h])) \<and>
   (fkID h \<noteq> [] \<longrightarrow> SQLConstraint ToLower h = (fkID h @ '' = ?'', [ownerID h]))"
  by (simp add: SQLConstraint_def)

theorem SQLConstraint_hasOne_witness:
  "SQLConstraint asciiLower \<lparr>ownerID = Intv 7, ownerName = ''User'', fkID = []\<rparr>
     = (''user_id = ?'', [Intv 7]) \<and>
   SQLConstraint asciiLower \<lparr>ownerID = Intv 7, ownerName = ''User'', fkID = ''owner_ref''\<rparr>
     = (''owner_ref = ?'', [Intv 7])"
  using SQLConstraint_hasOne [of "\<lparr>ownerID = Intv 7, ownerName = ''User'', fkID = []\<rparr>" asciiLower]
    SQLConstraint_hasOne [of "\<lparr>ownerID = Intv 7, ownerName = ''User'', fkID = ''owner_ref''\<rparr>" asciiLower]
  by (simp add: asciiLower_User)

section \<open>The eager flag\<close>

lemma resolve_then_disable:
  assumes "qa < next_query s1"
  obtains err s2 where "eagerAssociations env qa m s1 = (Returns err, s2)"
    and "\<not> eager (queries (disableEager qa s2) qa)"
    and "\<not> conn_eager (conns (disableEager qa s2) (Connection (queries s1 qa)))"
proof -
  obtain r s2 where e: "eagerAssociations env qa m s1 = (r, s2)" by (metis prod.exhaust)
  have st: "settled s1 (r, s2)" using resolver_settled(1) [of qa s1 env m] assms e by simp
  then obtain err where r: "r = Returns err" by (cases r) (auto simp add: settled_iff)
  have "Connection (queries s2 qa) = Connection (queries s1 qa)"
    using st assms by (simp add: settled_def frame_def)
  then have "\<not> eager (queries (disableEager qa s2) qa)"
    and "\<not> conn_eager (conns (disableEager qa s2) (Connection (queries s1 qa)))"
    by (simp_all add: disableEager_def update_query_def Let_def)
  with e r that show thesis by blast
qed

lemma First_select_query:
  "queries (snd (First_select env qa m s)) qa = (queries s qa)\<lparr>limitResults := 1\<rparr>"
  by (simp add: First_select_def Let_def Limit_def update_query_def record_call_def
        split: option.splits)

lemma Last_select_query:
  "queries (snd (Last_select env qa m s)) qa =
     (queries s qa)\<lparr>limitResults := 1,
        orderClauses := orderClauses (queries s qa) @ [(''created_at DESC, id DESC'', [])]\<rparr>"
  by (simp add: Last_select_def Let_def Limit_def Order_def update_query_def record_call_def
        split: option.splits)

lemma queries_update_paginator [simp]: "queries (update_paginator pa f s) = queries s"
  by (simp add: update_paginator_def)

lemma paginateModel_queries:
  "a < next_query s \<Longrightarrow> queries (snd (paginateModel env qa m s)) a = queries s a"
proof (cases "Paginator (queries s qa)")
  case None
  then show ?thesis by (simp add: paginateModel_def)
next
  case (Some pa)
  assume a: "a < next_query s"
  obtain ct err s1 where c: "Count env (queries s qa) m s = ((ct, err), s1)"
    by (metis prod.exhaust)
  have "queries s1 a = queries s a"
    using CountByField_memory [of env "queries s qa" m "''*''" s] c a
    by (simp add: Count_def Let_def)
  then show ?thesis
    using Some c by (cases err; cases m) (simp_all add: paginateModel_def Let_def)
qed

lemma All_select_queries:
  assumes "a < next_query s"
  shows "queries (snd (All_select env qa m s)) a = queries s a"
proof -
  let ?s1 = "record_call (SelectMany_call (queries s qa) m) s"
  obtain r s2 where p: "paginateModel env qa m ?s1 = (r, s2)" by (metis prod.exhaust)
  have "queries s2 a = queries s a"
    using paginateModel_queries [of a ?s1 env qa m] assms p by (simp add: record_call_def)
  then show ?thesis
    using p by (simp add: All_select_def Let_def record_call_def split: option.splits exec.splits)
qed

lemma sample_selects:
  "fst (First_select (sampleEnv n) qa m s) = None"
  "fst (Last_select (sampleEnv n) qa m s) = None"
  "Paginator (queries s qa) = None \<Longrightarrow> fst (All_select (sampleEnv n) qa m s) = Returns None"
  by (simp_all add: First_select_def Last_select_def All_select_def Let_def sampleEnv_def
        paginateModel_def record_call_def)

text \<open>
  Claim C8. Take a query that is allocated and has its eager flag set. When the SELECT of
  \<open>First\<close>, \<open>Last\<close> or \<open>All\<close> (with the hook after it) has succeeded, so that the
  associations are resolved, the finder returns (with the resolver's error or none) and
  leaves the eager flag of the query and of its connection off. \<open>Load\<close> resolves in any
  case, and leaves the flag of its fresh query and of the connection off. Every query that
  the resolver creates on the way has its eager flag off, so that no sub-query starts a
  resolution of its own.
\<close>

theorem eager_reset_after_resolution:
  assumes "qa < next_query s" and "eager (queries s qa)"
  shows
    "(fst (First_select env qa m s) = None \<longrightarrow>
        (\<exists>err. fst (First env qa m s) = Returns err) \<and>
        \<not> eager (queries (snd (First env qa m s)) qa) \<and>
        \<not> conn_eager (conns (snd (First env qa m s)) (Connection (queries s qa)))) \<and>
     (fst (Last_select env qa m s) = None \<longrightarrow>
        (\<exists>err. fst (Last env qa m s) = Returns err) \<and>
        \<not> eager (queries (snd (Last env qa m s)) qa) \<and>
        \<not> conn_eager (conns (snd (Last env qa m s)) (Connection (queries s qa)))) \<and>
     (fst (All_select env qa m s) = Returns None \<longrightarrow>
        (\<exists>err. fst (All env qa m s) = Returns err) \<and>
        \<not> eager (queries (snd (All env qa m s)) qa) \<and>
        \<not> conn_eager (conns (snd (All env qa m s)) (Connection (queries s qa)))) \<and>
     ((\<exists>err. fst (Load env c m fieldNames s) = Returns err) \<and>
        \<not> eager (queries (snd (Load env c m fieldNames s)) (next_query s)) \<and>
        \<not> conn_eager (conns (snd (Load env c m fieldNames s)) c)) \<and>
     (\<forall>a. next_query s \<le> a \<and> a < next_query (snd (eagerAssociations env qa m s)) \<longrightarrow>
        \<not> eager (queries (snd (eagerAssociations env qa m s)) a))"
proof (intro conjI impI)
  assume ok: "fst (First_select env qa m s) = None"
  obtain s1 where e1: "First_select env qa m s = (None, s1)" using ok by (metis prod.collapse)
  have q1: "qa < next_query s1" using First_select_frame [of s env qa m] e1 assms(1) by simp
  have c1: "queries s1 qa = (queries s qa)\<lparr>limitResults := 1\<rparr>"
    using First_select_query [of env qa m s] e1 by simp
  obtain err s2 where r: "eagerAssociations env qa m s1 = (Returns err, s2)"
    and d: "\<not> eager (queries (disableEager qa s2) qa)"
      "\<not> conn_eager (conns (disableEager qa s2) (Connection (queries s1 qa)))"
    using resolve_then_disable [OF q1] by blast
  have res: "First env qa m s = (Returns err, disableEager qa s2)"
    using e1 r c1 assms(2) by (simp add: First.simps)
  show "\<exists>err. fst (First env qa m s) = Returns err" using res by simp
  show "\<not> eager (queries (snd (First env qa m s)) qa)" using res d by simp
  show "\<not> conn_eager (conns (snd (First env qa m s)) (Connection (queries s qa)))"
    using res d c1 by simp
next
  assume ok: "fst (Last_select env qa m s) = None"
  obtain s1 where e1: "Last_select env qa m s = (None, s1)" using ok by (metis prod.collapse)
  have q1: "qa < next_query s1" using Last_select_frame [of s env qa m] e1 assms(1) by simp
  have c1: "queries s1 qa = (queries s qa)\<lparr>limitResults := 1,
        orderClauses := orderClauses (queries s qa) @ [(''created_at DESC, id DESC'', [])]\<rparr>"
    using Last_select_query [of env qa m s] e1 by simp
  obtain err s2 where r: "eagerAssociations env qa m s1 = (Returns err, s2)"
    and d: "\<not> eager (queries (disableEager qa s2) qa)"
      "\<not> conn_eager (conns (disableEager qa s2) (Connection (queries s1 qa)))"
    using resolve_then_disable [OF q1] by blast
  have res: "Last env qa m s = (Returns err, disableEager qa s2)"
    using e1 r c1 assms(2) by (simp add: Last_def)
  show "\<exists>err. fst (Last env qa m s) = Returns err" using res by simp
  show "\<not> eager (queries (snd (Last env qa m s)) qa)" using res d by simp
  show "\<not> conn_eager (conns (snd (Last env qa m s)) (Connection (queries s qa)))"
    using res d c1 by simp
next
  assume ok: "fst (All_select env qa m s) = Returns None"
  obtain s1 where e1: "All_select env qa m s = (Returns None, s1)"
    using ok by (metis prod.collapse)
  have q1: "qa < next_query s1" using All_select_frame [of s env qa m] e1 assms(1)
    by (auto simp add: frame_def)
  have c1: "queries s1 qa = queries s qa"
    using All_select_queries [OF assms(1), of env qa m] e1 by simp
  obtain err s2 where r: "eagerAssociations env qa m s1 = (Returns err, s2)"
    and d: "\<not> eager (queries (disableEager qa s2) qa)"
      "\<not> conn_eager (conns (disableEager qa s2) (Connection (queries s1 qa)))"
    using resolve_then_disable [OF q1] by blast
  have res: "All env qa m s = (Returns err, disableEager qa s2)"
    using e1 r c1 assms(2) by (simp add: All.simps)
  show "\<exists>err. fst (All env qa m s) = Returns err" using res by simp
  show "\<not> eager (queries (snd (All env qa m s)) qa)" using res d by simp
  show "\<not> conn_eager (conns (snd (All env qa m s)) (Connection (queries s qa)))"
    using res d c1 by simp
next
  let ?q = "next_query s"
  let ?s2 = "update_query ?q (\<lambda>q. q\<lparr>eagerFields := fieldNames\<rparr>) (snd (Q c s))"
  have q2: "?q < next_query ?s2" by (simp add: Q_def)
  have c2: "Connection (queries ?s2 ?q) = c" by (simp add: Q_def update_query_def)
  obtain err s3 where r: "eagerAssociations env ?q m ?s2 = (Returns err, s3)"
    and d: "\<not> eager (queries (disableEager ?q s3) ?q)"
      "\<not> conn_eager (conns (disableEager ?q s3) (Connection (queries ?s2 ?q)))"
    using resolve_then_disable [OF q2] by blast
  have res: "Load env c m fieldNames s = (Returns err, disableEager ?q s3)"
    using r by (simp add: Load_def Q_def Let_def)
  show "\<exists>err. fst (Load env c m fieldNames s) = Returns err" using res by simp
  show "\<not> eager (queries (snd (Load env c m fieldNames s)) (next_query s))" using res d by simp
  show "\<not> conn_eager (conns (snd (Load env c m fieldNames s)) c)" using res d c2 by simp
next
  show "\<forall>a. next_query s \<le> a \<and> a < next_query (snd (eagerAssociations env qa m s)) \<longrightarrow>
        \<not> eager (queries (snd (eagerAssociations env qa m s)) a)"
    using resolver_settled(1) [of qa s env m] assms(1) by (simp add: settled_def quiet_def)
qed

theorem eager_reset_after_resolution_witness:
  "\<not> eager (queries (snd (First (sampleEnv 1) 0 sampleUser
        (sampleMemory (sampleQuery\<lparr>eager := True\<rparr>) 10))) 0) \<and>
   \<not> conn_eager (conns (snd (First (sampleEnv 1) 0 sampleUser
        (sampleMemory (sampleQuery\<lparr>eager := True\<rparr>) 10))) 0) \<and>
   \<not> eager (queries (snd (Last (sampleEnv 1) 0 sampleUser
        (sampleMemory (sampleQuery\<lparr>eager := True\<rparr>) 10))) 0) \<and>
   \<not> conn_eager (conns (snd (Last (sampleEnv 1) 0 sampleUser
        (sampleMemory (sampleQuery\<lparr>eager := True\<rparr>) 10))) 0) \<and>
   \<not> eager (queries (snd (All (sampleEnv 1) 0 (SliceOf [sampleUser])
        (sampleMemory (sampleQuery\<lparr>eager := True\<rparr>) 10))) 0) \<and>
   \<not> conn_eager (conns (snd (All (sampleEnv 1) 0 (SliceOf [sampleUser])
        (sampleMemory (sampleQuery\<lparr>eager := True\<rparr>) 10))) 0) \<and>
   \<not> eager (queries (snd (Load (sampleEnv 1) 0 sampleUser []
        (sampleMemory (sampleQuery\<lparr>eager := True\<rparr>) 10))) 1) \<and>
   \<not> conn_eager (conns (snd (Load (sampleEnv 1) 0 sampleUser []
        (sampleMemory (sampleQuery\<lparr>eager := True\<rparr>) 10))) 0)"
proof -
  let ?s = "sampleMemory (sampleQuery\<lparr>eager := True\<rparr>) 10"
  have a: "0 < next_query ?s" and b: "eager (queries ?s 0)"
    and c: "Connection (queries ?s 0) = 0" and n: "next_query ?s = 1"
    and p: "Paginator (queries ?s 0) = None"
    by (simp_all add: sampleMemory_def sampleQuery_def)
  show ?thesis
    using eager_reset_after_resolution [OF a b, of "sampleEnv 1" sampleUser 0 "[]"]
      eager_reset_after_resolution [OF a b, of "sampleEnv 1" "SliceOf [sampleUser]" 0 "[]"]
    by (simp add: sample_selects p c n)
qed

section \<open>\<open>Last\<close> and the order of the caller\<close>

lemma trace_disableEager [simp]: "trace (disableEager qa s) = trace s"
  by (simp add: disableEager_def update_query_def Let_def)

lemma Last_select_trace:
  "\<exists>evs. trace (snd (Last_select env qa m s)) =
     trace s @ SelectOne_call ((queries s qa)\<lparr>limitResults := 1,
        orderClauses := orderClauses (queries s qa) @ [(''created_at DESC, id DESC'', [])]\<rparr>) m
       # evs"
  by (simp add: Last_select_def Let_def Limit_def Order_def update_query_def record_call_def
        split: option.splits)

text \<open>
  Claim C1, as amended. \<open>Last\<close> runs its single-row SELECT with the query of the caller,
  the limit set to 1 and \<open>created_at DESC, id DESC\<close> added after the ORDER clauses the
  caller has chained: it is the first call \<open>Last\<close> makes. Without an earlier \<open>Order\<close>
  the SELECT is ordered by \<open>created_at DESC, id DESC\<close> alone.
\<close>

theorem Last_appends_order:
  assumes "qa < next_query s"
  shows "\<exists>evs. trace (snd (Last env qa m s)) =
     trace s @ SelectOne_call ((queries s qa)\<lparr>limitResults := 1,
        orderClauses := orderClauses (queries s qa) @ [(''created_at DESC, id DESC'', [])]\<rparr>) m
       # evs"
proof -
  obtain err s1 where e1: "Last_select env qa m s = (err, s1)" by (metis prod.exhaust)
  have q1: "qa < next_query s1" using Last_select_frame [of s env qa m] e1 assms by simp
  obtain r s2 where e2: "eagerAssociations env qa m s1 = (r, s2)" by (metis prod.exhaust)
  have "frame s1 s2" using resolver_settled(1) [of qa s1 env m] q1 e2 by (simp add: settled_def)
  then obtain evs2 where t2: "trace s2 = trace s1 @ evs2" by (auto simp add: frame_def)
  have "\<exists>evs'. trace (snd (Last env qa m s)) = trace s1 @ evs'"
    using e1 e2 t2 by (auto simp add: Last_def split: option.splits exec.splits)
  moreover obtain evs1 where "trace s1 =
     trace s @ SelectOne_call ((queries s qa)\<lparr>limitResults := 1,
        orderClauses := orderClauses (queries s qa) @ [(''created_at DESC, id DESC'', [])]\<rparr>) m
       # evs1"
    using Last_select_trace [of env qa m s] e1 by auto
  ultimately show ?thesis by auto
qed

theorem Last_appends_order_witness:
  "\<exists>evs. trace (snd (Last (sampleEnv 1) 0 (StructOf None [])
             (sampleMemory (sampleQuery\<lparr>orderClauses := [(''name ASC'', [])]\<rparr>) 10))) =
     SelectOne_call (sampleQuery\<lparr>limitResults := 1,
        orderClauses := [(''name ASC'', []), (''created_at DESC, id DESC'', [])]\<rparr>)
       (StructOf None []) # evs"
proof -
  let ?s = "sampleMemory (sampleQuery\<lparr>orderClauses := [(''name ASC'', [])]\<rparr>) 10"
  have a: "0 < next_query ?s" by (simp add: sampleMemory_def)
  show ?thesis
    using Last_appends_order [OF a, of "sampleEnv 1" "StructOf None []"]
    by (simp add: sampleMemory_def sampleQuery_def)
qed

text \<open>
  The claim as it was stated has \<open>Last\<close> replace the order of the caller. After
  \<open>Order("name ASC")\<close> the SELECT of \<open>Last\<close> is ordered by \<open>name ASC\<close> first and by
  \<open>created_at DESC, id DESC\<close> second.
\<close>

theorem Last_keeps_caller_order:
  "trace (snd (Last (sampleEnv 1) 0 (StructOf None [])
             (sampleMemory (sampleQuery\<lparr>orderClauses := [(''name ASC'', [])]\<rparr>) 10))) =
     [SelectOne_call (sampleQuery\<lparr>limitResults := 1,
        orderClauses := [(''name ASC'', []), (''created_at DESC, id DESC'', [])]\<rparr>)
       (StructOf None []), afterFind_call (StructOf None [])] \<and>
   orderClauses (sampleQuery\<lparr>limitResults := 1,
        orderClauses := [(''name ASC'', []), (''created_at DESC, id DESC'', [])]\<rparr>)
     \<noteq> [(''created_at DESC, id DESC'', [])]"
  by (simp add: Last_def Last_select_def Let_def Limit_def Order_def update_query_def
        record_call_def sampleEnv_def sampleMemory_def sampleQuery_def)

section \<open>\<open>Exists\<close> and \<open>Count\<close> leave the query alone\<close>

lemma Exists_memory:
  assumes "qa < next_query s"
  shows "snd (Exists env qa m s) =
     (let t = cloned (queries s qa) s;
          sql = Query_ToSQL env t m;
          existsQuery = ''SELECT EXISTS ('' @ stripLimit (fst sql) @ '')''
      in s\<lparr>queries := (queries s)(next_query s := t), next_query := Suc (next_query s),
           trace := trace s @ [Get_call existsQuery (snd sql)]\<rparr>)"
proof -
  have a: "fst (Q (Connection (queries s qa)) s) = next_query s" by (simp add: Q_def)
  have b: "queries (snd (Q (Connection (queries s qa)) s)) qa = queries s qa"
    using assms by (simp add: Q_def)
  show ?thesis
    unfolding Exists_def
    apply (simp only: prod.case_eq_if Let_def a b snd_conv fst_conv)
    apply (simp only: tmpQuery_cloned [OF refl])
    apply (simp add: record_call_def)
    done
qed

text \<open>
  Claim C4. For an allocated query, \<open>Exists\<close> and \<open>CountByField\<close> (and \<open>Count\<close>,
  which is \<open>CountByField\<close> on \<open>*\<close>) leave every query the memory held as it was, the
  caller's among them, and every connection and paginator too. What they add is one query
  at a fresh address, the clone, and one call of \<open>Store.Get\<close>, whose SQL is rendered from
  the clone. The clone has the WHERE clauses of the original and no paginator, no ORDER
  clause and no limit.
\<close>

theorem Exists_Count_leave_query:
  assumes "qa < next_query s"
  shows
    "(\<forall>a. a < next_query s \<longrightarrow> queries (snd (Exists env qa m s)) a = queries s a) \<and>
     conns (snd (Exists env qa m s)) = conns s \<and>
     paginators (snd (Exists env qa m s)) = paginators s \<and>
     queries (snd (Exists env qa m s)) (next_query s) = cloned (queries s qa) s \<and>
     trace (snd (Exists env qa m s)) =
       trace s @ [Get_call (''SELECT EXISTS (''
                    @ stripLimit (fst (Query_ToSQL env (cloned (queries s qa) s) m)) @ '')'')
                    (snd (Query_ToSQL env (cloned (queries s qa) s) m))] \<and>
     (\<forall>a. a < next_query s \<longrightarrow>
        queries (snd (CountByField env (queries s qa) m field s)) a = queries s a) \<and>
     conns (snd (CountByField env (queries s qa) m field s)) = conns s \<and>
     paginators (snd (CountByField env (queries s qa) m field s)) = paginators s \<and>
     queries (snd (CountByField env (queries s qa) m field s)) (next_query s)
       = cloned (queries s qa) s \<and>
     trace (snd (CountByField env (queries s qa) m field s)) =
       trace s @ [Get_call (''SELECT COUNT('' @ field @ '') AS row_count FROM (''
                    @ stripLimit (fst (Query_ToSQL env (cloned (queries s qa) s) m)) @ '') a'')
                    (snd (Query_ToSQL env (cloned (queries s qa) s) m))] \<and>
     Count env (queries s qa) m s = CountByField env (queries s qa) m ''*'' s \<and>
     Paginator (cloned (queries s qa) s) = None \<and>
     orderClauses (cloned (queries s qa) s) = [] \<and>
     limitResults (cloned (queries s qa) s) = 0 \<and>
     whereClauses (cloned (queries s qa) s) = whereClauses (queries s qa)"
  by (simp add: Exists_memory [OF assms] CountByField_memory Let_def Count_def cloned_def)

theorem Exists_Count_leave_query_witness:
  "queries (snd (Exists (sampleEnv 1) 0 (StructOf None [])
      (sampleMemory (sampleQuery\<lparr>orderClauses := [(''name ASC'', [])], limitResults := 5,
                                  Paginator := Some 0\<rparr>) 10))) 0
     = sampleQuery\<lparr>orderClauses := [(''name ASC'', [])], limitResults := 5, Paginator := Some 0\<rparr> \<and>
   queries (snd (Count (sampleEnv 1)
        (sampleQuery\<lparr>orderClauses := [(''name ASC'', [])], limitResults := 5, Paginator := Some 0\<rparr>)
        (StructOf None [])
        (sampleMemory (sampleQuery\<lparr>orderClauses := [(''name ASC'', [])], limitResults := 5,
                                  Paginator := Some 0\<rparr>) 10))) 0
     = sampleQuery\<lparr>orderClauses := [(''name ASC'', [])], limitResults := 5, Paginator := Some 0\<rparr> \<and>
   queries (snd (Exists (sampleEnv 1) 0 (StructOf None [])
      (sampleMemory (sampleQuery\<lparr>orderClauses := [(''name ASC'', [])], limitResults := 5,
                                  Paginator := Some 0\<rparr>) 10))) 1
     = sampleQuery"
proof -
  let ?q = "sampleQuery\<lparr>orderClauses := [(''name ASC'', [])], limitResults := 5, Paginator := Some 0\<rparr>"
  let ?s = "sampleMemory ?q 10"
  have a: "0 < next_query ?s" by (simp add: sampleMemory_def)
  have q: "queries ?s 0 = ?q" and n: "next_query ?s = 1" by (simp_all add: sampleMemory_def)
  have c: "cloned ?q ?s = sampleQuery"
    by (simp add: cloned_def sampleQuery_def sampleMemory_def)
  show ?thesis
    using Exists_Count_leave_query [OF a, of "sampleEnv 1" "StructOf None []" "''*''"]
    by (simp add: q n c)
qed

section \<open>Errors while associations are resolved\<close>




section \<open>The aggregate rewriting\<close>

lemma conc_iff: "w \<in> conc A B = (\<exists>x y. w = x @ y \<and> x \<in> A \<and> y \<in> B)"
  by (auto simp add: conc_def)

lemma Cons_in_conc:
  "c # w \<in> conc A B =
     ((\<exists>x y. w = x @ y \<and> c # x \<in> A \<and> y \<in> B) \<or> ([] \<in> A \<and> c # w \<in> B))"
proof
  assume "c # w \<in> conc A B"
  then obtain x y where e: "c # w = x @ y" and x: "x \<in> A" and y: "y \<in> B"
    by (auto simp add: conc_iff)
  show "(\<exists>x y. w = x @ y \<and> c # x \<in> A \<and> y \<in> B) \<or> ([] \<in> A \<and> c # w \<in> B)"
  proof (cases x)
    case Nil
    then show ?thesis using e x y by simp
  next
    case (Cons a x')
    then show ?thesis using e x y by auto
  qed
next
  assume "(\<exists>x y. w = x @ y \<and> c # x \<in> A \<and> y \<in> B) \<or> ([] \<in> A \<and> c # w \<in> B)"
  then show "c # w \<in> conc A B"
  proof
    assume "\<exists>x y. w = x @ y \<and> c # x \<in> A \<and> y \<in> B"
    then obtain x y where "w = x @ y" "c # x \<in> A" "y \<in> B" by blast
    then have "c # w = (c # x) @ y" by simp
    then show ?thesis using \<open>c # x \<in> A\<close> \<open>y \<in> B\<close> conc_iff by blast
  next
    assume "[] \<in> A \<and> c # w \<in> B"
    then have "c # w = [] @ (c # w) \<and> [] \<in> A \<and> c # w \<in> B" by simp
    then show ?thesis using conc_iff by blast
  qed
qed

lemma Cons_in_star:
  "c # w \<in> star A = (\<exists>x y. w = x @ y \<and> c # x \<in> A \<and> y \<in> star A)"
proof
  assume "c # w \<in> star A"
  then show "\<exists>x y. w = x @ y \<and> c # x \<in> A \<and> y \<in> star A"
  proof (induction "c # w" rule: star.induct)
    case (star_app x y)
    show ?case
    proof (cases x)
      case Nil
      then show ?thesis using star_app by simp
    next
      case (Cons a x')
      then show ?thesis using star_app by auto
    qed
  qed
next
  assume "\<exists>x y. w = x @ y \<and> c # x \<in> A \<and> y \<in> star A"
  then obtain x y where "w = x @ y" "c # x \<in> A" "y \<in> star A" by blast
  then show "c # w \<in> star A" using star.star_app [of "c # x" A y] by simp
qed

lemma nullable_lang: "nullable r = ([] \<in> lang r)"
  by (induction r) (auto simp add: conc_iff intro: star.star_nil)

lemma in_conc_left:
  "w \<in> conc {x. c # x \<in> A} B = (\<exists>x y. w = x @ y \<and> c # x \<in> A \<and> y \<in> B)"
  by (auto simp add: conc_iff)

lemma lang_deriv: "lang (deriv c r) = {w. c # w \<in> lang r}"
proof (induction r)
  case (OpConcat r1 r2)
  then show ?case
    by (auto simp add: Cons_in_conc nullable_lang in_conc_left) blast+
next
  case (OpStar r)
  then show ?case
    by (auto simp add: Cons_in_star in_conc_left) blast+
next
  case (OpPlus r)
  then show ?case
    by (auto simp add: Cons_in_conc Cons_in_star in_conc_left) blast+
qed auto

lemma fullMatch_lang: "fullMatch r s = (s \<in> lang r)"
proof (induction s arbitrary: r)
  case Nil
  show ?case by (simp add: fullMatch_def nullable_lang)
next
  case (Cons c s)
  have "fullMatch r (c # s) = fullMatch (deriv c r) s" by (simp add: fullMatch_def)
  then show ?case using Cons [of "deriv c r"] by (simp add: lang_deriv)
qed

lemma leftmost_Some:
  "leftmost r s = Some m \<Longrightarrow> \<exists>p. s = p @ m \<and> m \<in> lang r"
proof (induction s)
  case Nil
  then show ?case by (auto simp add: fullMatch_lang split: if_splits)
next
  case (Cons c s)
  show ?case
  proof (cases "fullMatch r (c # s)")
    case True
    then show ?thesis using Cons.prems by (auto simp add: fullMatch_lang)
  next
    case False
    then obtain p where "s = p @ m \<and> m \<in> lang r" using Cons by auto
    then have "c # s = (c # p) @ m \<and> m \<in> lang r" by simp
    then show ?thesis by blast
  qed
qed

lemma leftmost_None: "(leftmost r s = None) = (\<forall>p m. s = p @ m \<longrightarrow> m \<notin> lang r)"
proof (induction s)
  case Nil
  then show ?case by (auto simp add: fullMatch_lang)
next
  case (Cons c s)
  show ?case
  proof (cases "fullMatch r (c # s)")
    case True
    then have "c # s = [] @ (c # s) \<and> c # s \<in> lang r" by (simp add: fullMatch_lang)
    then show ?thesis using True by (metis leftmost.simps(2) option.distinct(1))
  next
    case False
    have "(\<forall>p m. c # s = p @ m \<longrightarrow> m \<notin> lang r) = (\<forall>p m. s = p @ m \<longrightarrow> m \<notin> lang r)"
    proof
      assume a: "\<forall>p m. c # s = p @ m \<longrightarrow> m \<notin> lang r"
      show "\<forall>p m. s = p @ m \<longrightarrow> m \<notin> lang r"
      proof (intro allI impI)
        fix p m assume "s = p @ m"
        then have "c # s = (c # p) @ m" by simp
        then show "m \<notin> lang r" using a by blast
      qed
    next
      assume a: "\<forall>p m. s = p @ m \<longrightarrow> m \<notin> lang r"
      show "\<forall>p m. c # s = p @ m \<longrightarrow> m \<notin> lang r"
      proof (intro allI impI)
        fix p m assume e: "c # s = p @ m"
        show "m \<notin> lang r"
        proof (cases p)
          case Nil
          then show ?thesis using e False by (simp add: fullMatch_lang)
        next
          case (Cons a p')
          then show ?thesis using e a by auto
        qed
      qed
    qed
    then show ?thesis using False Cons by simp
  qed
qed

lemma star_chars: "x \<in> star A \<Longrightarrow> (\<And>y. y \<in> A \<Longrightarrow> set y \<subseteq> C) \<Longrightarrow> set x \<subseteq> C"
  by (induction rule: star.induct) auto

lemma lang_chars: "x \<in> lang r \<Longrightarrow> set x \<subseteq> chars r"
proof (induction r arbitrary: x)
  case (OpAlternate r1 r2)
  then show ?case by fastforce
next
  case (OpConcat r1 r2)
  then obtain a b where "x = a @ b" "a \<in> lang r1" "b \<in> lang r2"
    by (auto simp add: conc_iff)
  then show ?case using OpConcat.IH by fastforce
next
  case (OpStar r)
  then show ?case using star_chars [of x "lang r" "chars r"] by auto
next
  case (OpPlus r)
  then obtain a b where "x = a @ b" "a \<in> lang r" "b \<in> star (lang r)"
    by (auto simp add: conc_iff)
  then show ?case using OpPlus.IH star_chars [of b "lang r" "chars r"] by auto
qed auto

lemma conc_assoc: "conc (conc A B) C = conc A (conc B C)"
  by (auto simp add: conc_iff) (metis append.assoc)+

lemma literalFold_Cons: "literalFold (c # s) = OpConcat (foldCase c) (literalFold s)"
  by (simp add: literalFold_def)

lemma foldCase_simps:
  "foldCase CHR ''l'' = OpCharClass [CHR ''l'', CHR ''L'']"
  "foldCase CHR ''i'' = OpCharClass [CHR ''i'', CHR ''I'']"
  "foldCase CHR ''m'' = OpCharClass [CHR ''m'', CHR ''M'']"
  "foldCase CHR ''t'' = OpCharClass [CHR ''t'', CHR ''T'']"
  "foldCase CHR '' '' = OpCharClass [CHR '' '']"
  "foldCase CHR ''o'' = OpCharClass [CHR ''o'', CHR ''O'']"
  "foldCase CHR ''f'' = OpCharClass [CHR ''f'', CHR ''F'']"
  "foldCase CHR ''s'' =
     OpAlternate (OpCharClass [CHR ''s'', CHR ''S''])
       (OpConcat (OpCharClass [CHR 0xC5]) (OpConcat (OpCharClass [CHR 0xBF]) OpEmptyMatch))"
  "foldCase CHR ''e'' = OpCharClass [CHR ''e'', CHR ''E'']"
  by code_simp+

lemma rLimit_head:
  "lang rLimit =
     conc (lang (OpCharClass [CHR ''l'', CHR ''L'']))
       (lang (OpConcat (literalFold ''imit '') digits))"
  by (simp add: rLimit_def literalFold_Cons foldCase_simps(1) conc_assoc del: lang.simps(3))

lemma rLimitOffset_head:
  "lang rLimitOffset =
     conc (lang (OpCharClass [CHR ''l'', CHR ''L'']))
       (lang (OpConcat (literalFold ''imit '')
                (OpConcat digits (OpConcat (literalFold '' offset '') digits))))"
  by (simp add: rLimitOffset_def literalFold_Cons foldCase_simps(1) conc_assoc del: lang.simps(3))

lemma tail_chars:
  "CHR ''l'' \<notin> chars (OpConcat (literalFold ''imit '') digits)"
  "CHR ''L'' \<notin> chars (OpConcat (literalFold ''imit '') digits)"
  "CHR ''f'' \<notin> chars rLimit"
  "CHR ''F'' \<notin> chars rLimit"
  "CHR ''l'' \<notin> chars (OpConcat (literalFold ''imit '')
                (OpConcat digits (OpConcat (literalFold '' offset '') digits)))"
  "CHR ''L'' \<notin> chars (OpConcat (literalFold ''imit '')
                (OpConcat digits (OpConcat (literalFold '' offset '') digits)))"
  by (simp_all add: rLimit_def literalFold_Cons foldCase_simps digits_def literalFold_def)

lemma headedI:
  assumes "x \<in> conc (lang (OpCharClass [CHR ''l'', CHR ''L''])) (lang r)"
    and "CHR ''l'' \<notin> chars r" and "CHR ''L'' \<notin> chars r"
  shows "headed x"
proof -
  obtain a y where x: "x = a @ y" and a: "a \<in> lang (OpCharClass [CHR ''l'', CHR ''L''])"
    and y: "y \<in> lang r"
    using assms(1) by (auto simp add: conc_iff)
  have "set y \<subseteq> chars r" using y by (rule lang_chars)
  then have "CHR ''l'' \<notin> set y \<and> CHR ''L'' \<notin> set y" using assms(2,3) by blast
  moreover have "a = [CHR ''l''] \<or> a = [CHR ''L'']" using a by auto
  ultimately show ?thesis using x by (auto simp add: headed_def)
qed

lemma rLimit_headed: "x \<in> lang rLimit \<Longrightarrow> headed x"
  using headedI [OF _ tail_chars(1,2)] by (simp only: rLimit_head)

lemma rLimitOffset_headed: "x \<in> lang rLimitOffset \<Longrightarrow> headed x"
  using headedI [OF _ tail_chars(5,6)] by (simp only: rLimitOffset_head)

lemma headed_suffix_unique:
  assumes "headed x" and "headed m" and "p1 @ x = p2 @ m"
  shows "x = m \<and> p1 = p2"
proof -
  obtain us where "(p1 = p2 @ us \<and> us @ x = m) \<or> (p1 @ us = p2 \<and> x = us @ m)"
    using assms(3) by (auto simp add: append_eq_append_conv2)
  then show ?thesis
  proof
    assume a: "p1 = p2 @ us \<and> us @ x = m"
    show ?thesis
    proof (cases us)
      case Nil
      then show ?thesis using a by simp
    next
      case (Cons u us')
      then have "hd x \<in> set (tl m)" using a assms(1) by (auto simp add: headed_def)
      then show ?thesis using assms(1,2) by (auto simp add: headed_def)
    qed
  next
    assume a: "p1 @ us = p2 \<and> x = us @ m"
    show ?thesis
    proof (cases us)
      case Nil
      then show ?thesis using a by simp
    next
      case (Cons u us')
      then have "hd m \<in> set (tl x)" using a assms(2) by (auto simp add: headed_def)
      then show ?thesis using assms(1,2) by (auto simp add: headed_def)
    qed
  qed
qed

lemma literalFold_step:
  assumes "x \<in> lang (literalFold (c # s))"
  obtains a b where "x = a @ b" and "a \<in> lang (foldCase c)" and "b \<in> lang (literalFold s)"
  using assms by (auto simp add: literalFold_Cons conc_iff)

lemma literal_offset_has_f:
  assumes "x \<in> lang (literalFold '' offset '')"
  shows "CHR ''f'' \<in> set x \<or> CHR ''F'' \<in> set x"
proof -
  obtain a1 x1 where 1: "x = a1 @ x1" "x1 \<in> lang (literalFold ''offset '')"
    using assms by (rule literalFold_step)
  obtain a2 x2 where 2: "x1 = a2 @ x2" "x2 \<in> lang (literalFold ''ffset '')"
    using 1(2) by (rule literalFold_step)
  obtain a3 x3 where 3: "x2 = a3 @ x3" "a3 \<in> lang (foldCase CHR ''f'')"
    using 2(2) by (rule literalFold_step)
  have "a3 = [CHR ''f''] \<or> a3 = [CHR ''F'']" using 3(2) by (auto simp add: foldCase_simps)
  then show ?thesis using 1(1) 2(1) 3(1) by auto
qed

lemma offset_has_f:
  assumes "x \<in> lang rLimitOffset"
  shows "CHR ''f'' \<in> set x \<or> CHR ''F'' \<in> set x"
proof -
  obtain a b c d where "x = a @ b @ c @ d" and "c \<in> lang (literalFold '' offset '')"
    using assms by (auto simp add: rLimitOffset_def conc_iff simp del: lang.simps(3))
  then show ?thesis using literal_offset_has_f [of c] by auto
qed

lemma rLimit_no_f: "x \<in> lang rLimit \<Longrightarrow> CHR ''f'' \<notin> set x \<and> CHR ''F'' \<notin> set x"
  using lang_chars [of x rLimit] tail_chars(3,4) by auto

lemma leftmost_headed:
  assumes h: "\<And>x. x \<in> lang r \<Longrightarrow> headed x" and m: "m \<in> lang r"
  shows "leftmost r (p @ m) = Some m"
proof -
  have "leftmost r (p @ m) \<noteq> None" using m by (auto simp add: leftmost_None)
  then obtain x where x: "leftmost r (p @ m) = Some x" by auto
  then obtain p' where "p @ m = p' @ x" and "x \<in> lang r" using leftmost_Some by blast
  then have "x = m" using headed_suffix_unique [of x m p' p] h m by auto
  then show ?thesis using x by simp
qed

lemma no_offset_match:
  assumes "m \<in> lang rLimit"
  shows "leftmost rLimitOffset (p @ m) = None"
proof (rule ccontr)
  assume "leftmost rLimitOffset (p @ m) \<noteq> None"
  then obtain x where "leftmost rLimitOffset (p @ m) = Some x" by auto
  then obtain p' where e: "p @ m = p' @ x" and x: "x \<in> lang rLimitOffset"
    using leftmost_Some by blast
  have "x = m"
    using headed_suffix_unique [of x m p' p] rLimitOffset_headed [OF x] rLimit_headed [OF assms] e
    by auto
  then show False using offset_has_f [OF x] rLimit_no_f [OF assms] by simp
qed

lemma strip_offset: "m \<in> lang rLimitOffset \<Longrightarrow> stripLimit (p @ m) = p"
  using leftmost_headed [of rLimitOffset m p] rLimitOffset_headed
  by (simp add: stripLimit_def MatchString_def FindString_def)

lemma strip_limit: "m \<in> lang rLimit \<Longrightarrow> stripLimit (p @ m) = p"
  using leftmost_headed [of rLimit m p] rLimit_headed no_offset_match [of m p]
  by (simp add: stripLimit_def MatchString_def FindString_def)

lemma strip_none:
  "leftmost rLimitOffset query = None \<Longrightarrow> leftmost rLimit query = None
     \<Longrightarrow> stripLimit query = query"
  by (simp add: stripLimit_def MatchString_def)

lemma char_of_digits:
  "char_of (48::nat) = CHR ''0''" "char_of (49::nat) = CHR ''1''" "char_of (50::nat) = CHR ''2''"
  "char_of (51::nat) = CHR ''3''" "char_of (52::nat) = CHR ''4''" "char_of (53::nat) = CHR ''5''"
  "char_of (54::nat) = CHR ''6''" "char_of (55::nat) = CHR ''7''" "char_of (56::nat) = CHR ''8''"
  "char_of (57::nat) = CHR ''9''"
  by code_simp+

lemma isDigit_class: "isDigit c \<Longrightarrow> c \<in> set ''0123456789''"
proof -
  assume "isDigit c"
  then have "48 \<le> (of_char c :: nat) \<and> (of_char c :: nat) \<le> 57"
    by (simp add: isDigit_def)
  moreover have "48 \<le> n \<and> n \<le> 57 \<Longrightarrow> n \<in> {48, 49, 50, 51, 52, 53, 54, 55, 56, 57}"
    for n :: nat
    by (simp only: insert_iff empty_iff) presburger
  ultimately have "(of_char c :: nat) \<in> {48, 49, 50, 51, 52, 53, 54, 55, 56, 57}"
    by blast
  then have "char_of (of_char c :: nat) \<in> char_of ` {48 :: nat, 49, 50, 51, 52, 53, 54, 55, 56, 57}"
    by (rule imageI)
  then show ?thesis by (simp add: char_of_digits)
qed

lemma digits_star: "list_all isDigit ds \<Longrightarrow> ds \<in> star (lang (OpCharClass ''0123456789''))"
proof (induction ds)
  case Nil
  show ?case by (rule star.star_nil)
next
  case (Cons d ds)
  then have "[d] \<in> lang (OpCharClass ''0123456789'')" using isDigit_class [of d] by simp
  then show ?case using Cons star.star_app [of "[d]" _ ds] by simp
qed

lemma digits_lang: "ds \<noteq> [] \<Longrightarrow> list_all isDigit ds \<Longrightarrow> ds \<in> lang digits"
proof (cases ds)
  case Nil
  then show "ds \<noteq> [] \<Longrightarrow> ds \<in> lang digits" by simp
next
  case (Cons d ds')
  assume "list_all isDigit ds"
  then have "[d] \<in> lang (OpCharClass ''0123456789'')"
    and "ds' \<in> star (lang (OpCharClass ''0123456789''))"
    using Cons isDigit_class [of d] digits_star [of ds'] by simp_all
  then have "[d] @ ds' \<in> lang digits" unfolding digits_def lang.simps(7) conc_iff by blast
  then show "ds \<in> lang digits" using Cons by simp
qed

lemma sample_literals:
  "fullMatch (literalFold ''limit '') ''LIMIT ''" "fullMatch (literalFold ''limit '') ''limit ''"
  "fullMatch (literalFold '' offset '') '' OFFSET ''"
  "fullMatch (literalFold '' offset '') '' offset ''"
  by code_simp+

lemma written_clauses:
  assumes "ds \<noteq> []" and "list_all isDigit ds" and "ds' \<noteq> []" and "list_all isDigit ds'"
  shows "''LIMIT '' @ ds \<in> lang rLimit" and "''limit '' @ ds \<in> lang rLimit"
    and "''LIMIT '' @ ds @ '' OFFSET '' @ ds' \<in> lang rLimitOffset"
    and "''limit '' @ ds @ '' offset '' @ ds' \<in> lang rLimitOffset"
proof -
  note d = digits_lang [OF assms(1,2)] digits_lang [OF assms(3,4)]
  note l = sample_literals [unfolded fullMatch_lang]
  show "''LIMIT '' @ ds \<in> lang rLimit" and "''limit '' @ ds \<in> lang rLimit"
    unfolding rLimit_def lang.simps(5) conc_iff using d(1) l(1,2) by blast+
  have "ds @ '' OFFSET '' @ ds' \<in> lang (OpConcat digits (OpConcat (literalFold '' offset '') digits))"
    and "ds @ '' offset '' @ ds' \<in> lang (OpConcat digits (OpConcat (literalFold '' offset '') digits))"
    unfolding lang.simps(5) conc_iff using d l(3,4) by blast+
  then show "''LIMIT '' @ ds @ '' OFFSET '' @ ds' \<in> lang rLimitOffset"
    and "''limit '' @ ds @ '' offset '' @ ds' \<in> lang rLimitOffset"
    unfolding rLimitOffset_def lang.simps(5) [of "literalFold ''limit ''"] conc_iff
    using l(1,2) by blast+
qed

lemma sample_matches:
  "fullMatch rLimitOffset ''LIMIT 10 OFFSET 20''"
  "fullMatch rLimit ''limit 5''"
  "leftmost rLimitOffset ''SELECT * FROM users'' = None"
  "leftmost rLimit ''SELECT * FROM users'' = None"
  by code_simp+

text \<open>
  Claim C3. Whatever SQL text \<open>p @ m\<close> ends in a match \<open>m\<close> of
  \<open>limit [0-9]+ offset [0-9]+\<close> or of \<open>limit [0-9]+\<close>, in any mix of upper and lower
  case, \<open>stripLimit\<close> returns \<open>p\<close>, the text before the word LIMIT: with the longer
  pattern tried first, the offset goes with the limit. A text of which no suffix matches
  either pattern is returned as it is. In particular a trailing \<open>LIMIT n OFFSET k\<close> and
  a trailing \<open>LIMIT n\<close>, written in upper or in lower case with any decimal numerals
  \<open>n\<close> and \<open>k\<close>, are cut off.
\<close>

theorem stripLimit_trailing_clause:
  "(m \<in> lang rLimitOffset \<longrightarrow> stripLimit (p @ m) = p) \<and>
   (m \<in> lang rLimit \<longrightarrow> stripLimit (p @ m) = p) \<and>
   ((\<forall>p m. query = p @ m \<longrightarrow> m \<notin> lang rLimitOffset \<and> m \<notin> lang rLimit) \<longrightarrow>
      stripLimit query = query) \<and>
   (ds \<noteq> [] \<and> list_all isDigit ds \<and> ds' \<noteq> [] \<and> list_all isDigit ds' \<longrightarrow>
      stripLimit (p @ ''LIMIT '' @ ds @ '' OFFSET '' @ ds') = p \<and>
      stripLimit (p @ ''limit '' @ ds @ '' offset '' @ ds') = p \<and>
      stripLimit (p @ ''LIMIT '' @ ds) = p \<and>
      stripLimit (p @ ''limit '' @ ds) = p)"
proof (intro conjI impI)
  show "stripLimit (p @ m) = p" if "m \<in> lang rLimitOffset"
    using that by (rule strip_offset)
  show "stripLimit (p @ m) = p" if "m \<in> lang rLimit"
    using that by (rule strip_limit)
  show "stripLimit query = query"
    if "\<forall>p m. query = p @ m \<longrightarrow> m \<notin> lang rLimitOffset \<and> m \<notin> lang rLimit"
    using that strip_none [of query] by (auto simp add: leftmost_None)
next
  assume d: "ds \<noteq> [] \<and> list_all isDigit ds \<and> ds' \<noteq> [] \<and> list_all isDigit ds'"
  note w = written_clauses [of ds ds']
  show "stripLimit (p @ ''LIMIT '' @ ds @ '' OFFSET '' @ ds') = p"
    using strip_offset [OF w(3), of p] d by simp
  show "stripLimit (p @ ''limit '' @ ds @ '' offset '' @ ds') = p"
    using strip_offset [OF w(4), of p] d by simp
  show "stripLimit (p @ ''LIMIT '' @ ds) = p"
    using strip_limit [OF w(1), of p] d by simp
  show "stripLimit (p @ ''limit '' @ ds) = p"
    using strip_limit [OF w(2), of p] d by simp
qed

theorem stripLimit_trailing_clause_witness:
  "stripLimit ''SELECT * FROM users LIMIT 10 OFFSET 20'' = ''SELECT * FROM users '' \<and>
   stripLimit ''SELECT * FROM users limit 5'' = ''SELECT * FROM users '' \<and>
   stripLimit ''SELECT * FROM users'' = ''SELECT * FROM users''"
proof -
  have a: "''LIMIT 10 OFFSET 20'' \<in> lang rLimitOffset" and b: "''limit 5'' \<in> lang rLimit"
    using sample_matches(1,2) by (simp_all only: fullMatch_lang)
  have c: "\<forall>p m. ''SELECT * FROM users'' = p @ m \<longrightarrow> m \<notin> lang rLimitOffset \<and> m \<notin> lang rLimit"
    using sample_matches(3,4) by (simp only: leftmost_None) blast
  show ?thesis
    using stripLimit_trailing_clause [of "''LIMIT 10 OFFSET 20''" "''SELECT * FROM users ''" "''SELECT * FROM users''"]
      stripLimit_trailing_clause [of "''limit 5''" "''SELECT * FROM users ''" "''SELECT * FROM users''"]
      a b c
    by simp
qed

end
